theory Spec2Isabelle
  imports Complex_Main "HOL-Library.Sublist"
begin

section \<open>Library functions the package calls\<close>

text \<open>
  Strings are byte sequences, as Go's \<^verbatim>\<open>string\<close> is. The functions of this section are
  the ones of Go's \<^verbatim>\<open>strings\<close> and \<^verbatim>\<open>bufio\<close> packages that \<^verbatim>\<open>readResponse\<close> calls,
  written from their documentation.
\<close>

text \<open>\<^verbatim>\<open>strings.Contains(s, substr)\<close>: \<open>substr\<close> occurs in \<open>s\<close> as a contiguous block.\<close>

fun Contains :: "string \<Rightarrow> string \<Rightarrow> bool" where
  "Contains [] substr = (substr = [])"
| "Contains (c # cs) substr = (prefix substr (c # cs) \<or> Contains cs substr)"

text \<open>
  \<^verbatim>\<open>strings.ReplaceAll(s, old, "")\<close>: the non-overlapping occurrences of \<open>old\<close> are cut out,
  scanning from the left. With an empty \<open>old\<close> and an empty replacement Go returns \<open>s\<close>
  itself.
\<close>

function ReplaceAll_empty :: "string \<Rightarrow> string \<Rightarrow> string" where
  "ReplaceAll_empty s old =
     (if old = [] \<or> s = [] then s
      else if prefix old s then ReplaceAll_empty (drop (length old) s) old
      else hd s # ReplaceAll_empty (tl s) old)"
  by pat_completeness auto
termination
  by (relation "measure (\<lambda>(s, old). length s)") auto

text \<open>
  The white space of \<^verbatim>\<open>unicode.IsSpace\<close>, each code point in its UTF-8 encoding: tab, line
  feed, vertical tab, form feed, carriage return, space, U+0085, U+00A0, U+1680, U+2000 to
  U+200A, U+2028, U+2029, U+202F, U+205F and U+3000.
\<close>

definition white_space :: "string list" where
  "white_space =
     [[CHR 0x09], [CHR 0x0A], [CHR 0x0B], [CHR 0x0C], [CHR 0x0D], [CHR 0x20],
      [CHR 0xC2, CHR 0x85], [CHR 0xC2, CHR 0xA0], [CHR 0xE1, CHR 0x9A, CHR 0x80],
      [CHR 0xE2, CHR 0x80, CHR 0x80], [CHR 0xE2, CHR 0x80, CHR 0x81],
      [CHR 0xE2, CHR 0x80, CHR 0x82], [CHR 0xE2, CHR 0x80, CHR 0x83],
      [CHR 0xE2, CHR 0x80, CHR 0x84], [CHR 0xE2, CHR 0x80, CHR 0x85],
      [CHR 0xE2, CHR 0x80, CHR 0x86], [CHR 0xE2, CHR 0x80, CHR 0x87],
      [CHR 0xE2, CHR 0x80, CHR 0x88], [CHR 0xE2, CHR 0x80, CHR 0x89],
      [CHR 0xE2, CHR 0x80, CHR 0x8A], [CHR 0xE2, CHR 0x80, CHR 0xA8],
      [CHR 0xE2, CHR 0x80, CHR 0xA9], [CHR 0xE2, CHR 0x80, CHR 0xAF],
      [CHR 0xE2, CHR 0x81, CHR 0x9F], [CHR 0xE3, CHR 0x80, CHR 0x80]]"

lemma find_white_space:
  "find P white_space = Some w \<Longrightarrow> P w \<and> w \<noteq> []"
proof -
  assume "find P white_space = Some w"
  then have "P w" and "w \<in> set white_space" by (auto simp: find_Some_iff)
  moreover have "\<forall>v \<in> set white_space. v \<noteq> []" by (simp add: white_space_def)
  ultimately show ?thesis by blast
qed

text \<open>
  \<^verbatim>\<open>strings.TrimSpace\<close>: the white space code points at the start are cut off, then the ones
  at the end. A code point is recognised by its encoding, as Go's decoder does it from the
  front and from the back; bytes that are no valid encoding are no white space.
\<close>

function TrimLeftSpace :: "string \<Rightarrow> string" where
  "TrimLeftSpace s =
     (case find (\<lambda>w. prefix w s) white_space of
        None \<Rightarrow> s
      | Some w \<Rightarrow> TrimLeftSpace (drop (length w) s))"
  by pat_completeness auto
termination
proof (relation "measure length")
  show "wf (measure length)" by simp
next
  fix s w assume "find (\<lambda>w. prefix w s) white_space = Some w"
  then have "prefix w s" "w \<noteq> []" by (auto dest: find_white_space)
  then have "length (drop (length w) s) < length s" by (auto simp: prefix_def)
  then show "(drop (length w) s, s) \<in> measure length" by simp
qed

function TrimRightSpace :: "string \<Rightarrow> string" where
  "TrimRightSpace s =
     (case find (\<lambda>w. suffix w s) white_space of
        None \<Rightarrow> s
      | Some w \<Rightarrow> TrimRightSpace (take (length s - length w) s))"
  by pat_completeness auto
termination
proof (relation "measure length")
  show "wf (measure length)" by simp
next
  fix s w assume "find (\<lambda>w. suffix w s) white_space = Some w"
  then have "suffix w s" "w \<noteq> []" by (auto dest: find_white_space)
  then have "length (take (length s - length w) s) < length s" by (auto simp: suffix_def)
  then show "(take (length s - length w) s, s) \<in> measure length" by simp
qed

definition TrimSpace :: "string \<Rightarrow> string" where
  "TrimSpace s = TrimRightSpace (TrimLeftSpace s)"

text \<open>
  \<^verbatim>\<open>bufio.Reader.ReadString(delim)\<close> on a connection that delivers the bytes \<open>stream\<close> and
  then fails every read (end of stream, or the read deadline): the bytes up to and
  including the first \<open>delim\<close> and no error, or, when no \<open>delim\<close> comes, the bytes read
  before the error together with the error. The result is (line, error, unread bytes).
\<close>

fun ReadString :: "char \<Rightarrow> string \<Rightarrow> string \<times> bool \<times> string" where
  "ReadString delim [] = ([], True, [])"
| "ReadString delim (c # cs) =
     (if c = delim then ([c], False, cs)
      else (case ReadString delim cs of (line, err, rest) \<Rightarrow> (c # line, err, rest)))"

lemma ReadString_rest_length:
  "ReadString delim stream = (line, False, rest) \<Longrightarrow> length rest < length stream"
  by (induction stream arbitrary: line) (auto split: if_splits prod.splits)

section \<open>Framed transport: \<^verbatim>\<open>readResponse\<close>\<close>

text \<open>How the \<^verbatim>\<open>for\<close> loop of \<^verbatim>\<open>readResponse\<close> was left: by the \<^verbatim>\<open>break\<close> on a read
  error, or by the \<^verbatim>\<open>break\<close> after a line that contains the delimiter.\<close>

datatype loop_exit = ReadError | DelimiterSeen

text \<open>
  The loop of \<^verbatim>\<open>readResponse\<close>. On an error the line that \<^verbatim>\<open>ReadString\<close> returned with it
  is not written to the builder.
\<close>

function readLoop :: "string \<Rightarrow> string \<Rightarrow> string \<Rightarrow> string \<times> loop_exit" where
  "readLoop delimiter builder stream =
     (case ReadString (CHR ''-'') stream of
        (line, err, rest) \<Rightarrow>
          if err then (builder, ReadError)
          else if Contains line delimiter then (builder @ line, DelimiterSeen)
          else readLoop delimiter (builder @ line) rest)"
  by pat_completeness auto
termination
  by (relation "measure (\<lambda>(delimiter, builder, stream). length stream)")
     (auto dest: ReadString_rest_length [OF sym])

text \<open>Go's \<^verbatim>\<open>error\<close> values of the package, by the message that tells them apart;
  \<open>None\<close> is \<^verbatim>\<open>nil\<close>.\<close>

datatype error =
    ConnectFailed | AuthFailed | SpawnFailed | SendFailed | NoConnection
  | OutputTooShort | ApplyForceFailed | StateRequestFailed | StateReadFailed
  | JSONParseError | InvalidPositionFormat | UnsupportedValue | WriteFailed

text \<open>\<^verbatim>\<open>readResponse\<close> on the bytes its reader gets before the reads fail.\<close>

definition readResponse_bytes :: "string \<Rightarrow> string \<Rightarrow> string \<times> error option" where
  "readResponse_bytes delimiter stream =
     (case readLoop delimiter [] stream of
        (builder, ex) \<Rightarrow> (TrimSpace (ReplaceAll_empty builder delimiter), None))"

text \<open>The lines \<^verbatim>\<open>ReadString('-')\<close> returns without an error on a stream, in order:
  the stream cut after each \<open>-\<close>, without what follows the last one.\<close>

function chunks :: "string \<Rightarrow> string list" where
  "chunks stream =
     (case ReadString (CHR ''-'') stream of
        (line, err, rest) \<Rightarrow> if err then [] else line # chunks rest)"
  by pat_completeness auto
termination
  by (relation "measure length") (auto dest: ReadString_rest_length [OF sym])

section \<open>The network\<close>

text \<open>
  A connection is named by the number of the \<^verbatim>\<open>net.Dial\<close> call that opened it. What the
  network and the server do is given from outside, per call: whether the \<open>i\<close>-th dial
  succeeds, whether the \<open>i\<close>-th write (of the given bytes) succeeds, and which bytes the
  \<open>i\<close>-th \<^verbatim>\<open>readResponse\<close> receives before its reads fail (end of stream or the 3 second
  read deadline). A closed connection fails every write and read.
\<close>

type_synonym conn = nat

record env =
  dial_ok :: "nat \<Rightarrow> bool"
  write_ok :: "nat \<Rightarrow> string \<Rightarrow> bool"
  inbound :: "nat \<Rightarrow> string"

text \<open>What the package prints on standard output, by message.\<close>

datatype log_msg =
    NukeFailedConnect | NukeFailedAuth | NukeFailedRequest | NukeFailedRead
  | NukeUnmarshalError | NukeAllCleared | NukeFailedDespawn string
  | NukeNuked nat nat | NukeFinished

text \<open>Go's \<^verbatim>\<open>float64\<close> as far as the package uses it: it compares and copies values
  and never computes with them. Signed zeros are one value here.\<close>

datatype float64 = NaN | NegInf | Fin real | PosInf

datatype event =
    EvDial "conn option"
  | EvWrite conn string bool
  | EvRead conn string
  | EvClose conn
  | EvPrint log_msg
  | EvSpawned string "float64 list"
  | EvDespawned string

record net =
  dials :: nat
  writes :: nat
  reads :: nat
  closed :: "conn list"
  trace :: "event list"

definition Dial :: "env \<Rightarrow> net \<Rightarrow> conn option \<times> net" where
  "Dial e n =
     (let r = (if dial_ok e (dials n) then Some (dials n) else None)
      in (r, n\<lparr>dials := Suc (dials n), trace := trace n @ [EvDial r]\<rparr>))"

definition Write :: "env \<Rightarrow> conn \<Rightarrow> string \<Rightarrow> net \<Rightarrow> error option \<times> net" where
  "Write e k data n =
     (let ok = (k \<notin> set (closed n) \<and> write_ok e (writes n) data)
      in (if ok then None else Some WriteFailed,
          n\<lparr>writes := Suc (writes n), trace := trace n @ [EvWrite k data ok]\<rparr>))"

definition Close :: "conn \<Rightarrow> net \<Rightarrow> net" where
  "Close k n = n\<lparr>closed := k # closed n, trace := trace n @ [EvClose k]\<rparr>"

definition print :: "log_msg \<Rightarrow> net \<Rightarrow> net" where
  "print m n = n\<lparr>trace := trace n @ [EvPrint m]\<rparr>"

text \<open>\<^verbatim>\<open>readResponse(conn, delimiter)\<close>.\<close>

definition readResponse :: "env \<Rightarrow> conn \<Rightarrow> string \<Rightarrow> net \<Rightarrow> (string \<times> error option) \<times> net" where
  "readResponse e k delimiter n =
     (let stream = (if k \<in> set (closed n) then [] else inbound e (reads n))
      in (readResponse_bytes delimiter stream,
          n\<lparr>reads := Suc (reads n), trace := trace n @ [EvRead k stream]\<rparr>))"

section \<open>JSON\<close>

text \<open>The values \<^verbatim>\<open>encoding/json\<close> reads into \<^verbatim>\<open>interface{}\<close> and the ones the package
  sends. A Go map is an association list here; \<open>JNull\<close> is also the \<^verbatim>\<open>nil\<close> interface.\<close>

datatype json =
    JNull | JBool bool | JNumber float64 | JString string
  | JArray "json list" | JObject "(string \<times> json) list"

text \<open>\<^verbatim>\<open>m[key]\<close> on a \<^verbatim>\<open>map[string]interface{}\<close>: \<^verbatim>\<open>nil\<close> for a missing key.\<close>

definition index :: "(string \<times> json) list \<Rightarrow> string \<Rightarrow> json" where
  "index m key = (case map_of m key of None \<Rightarrow> JNull | Some v \<Rightarrow> v)"

text \<open>\<^verbatim>\<open>json.Marshal\<close> returns an UnsupportedValueError for a NaN or an infinity.\<close>

fun finite_float :: "float64 \<Rightarrow> bool" where
  "finite_float (Fin x) = True"
| "finite_float _ = False"

fun supported :: "json \<Rightarrow> bool" where
  "supported (JNumber x) = finite_float x"
| "supported (JArray vs) = list_all supported vs"
| "supported (JObject kvs) = list_all supported (map snd kvs)"
| "supported _ = True"

text \<open>\<^verbatim>\<open>json.Marshal\<close>: the encoder \<open>enc\<close> of supported values is a parameter.\<close>

definition Marshal :: "(json \<Rightarrow> string) \<Rightarrow> json \<Rightarrow> string option" where
  "Marshal enc v = (if supported v then Some (enc v) else None)"

text \<open>\<^verbatim>\<open>sendJSONMessage(conn, msg, delimiter)\<close>.\<close>

definition sendJSONMessage ::
  "(json \<Rightarrow> string) \<Rightarrow> env \<Rightarrow> conn \<Rightarrow> (string \<times> json) list \<Rightarrow> string \<Rightarrow> net \<Rightarrow> error option \<times> net" where
  "sendJSONMessage enc e k msg delimiter n =
     (case Marshal enc (JObject msg) of
        None \<Rightarrow> (Some UnsupportedValue, n)
      | Some data \<Rightarrow> Write e k (data @ delimiter) n)"

text \<open>\<^verbatim>\<open>toStringArray\<close>.\<close>

fun toStringArray :: "json \<Rightarrow> string list" where
  "toStringArray JNull = []"
| "toStringArray (JArray vv) = concat (map (\<lambda>item. case item of JString str \<Rightarrow> [str] | _ \<Rightarrow> []) vv)"
| "toStringArray _ = []"

section \<open>The cube\<close>

text \<open>Go's \<^verbatim>\<open><\<close> and \<^verbatim>\<open><=\<close> on \<^verbatim>\<open>float64\<close>: every comparison with a NaN is false.\<close>

fun flt :: "float64 \<Rightarrow> float64 \<Rightarrow> bool" where
  "flt NaN y = False"
| "flt x NaN = False"
| "flt x NegInf = False"
| "flt NegInf y = True"
| "flt PosInf y = False"
| "flt (Fin a) PosInf = True"
| "flt (Fin a) (Fin b) = (a < b)"

definition fle :: "float64 \<Rightarrow> float64 \<Rightarrow> bool" where
  "fle x y = (flt x y \<or> (x = y \<and> x \<noteq> NaN))"

text \<open>
  \<^verbatim>\<open>Cube[T]\<close>. The field \<open>conn\<close> is \<open>None\<close> for Go's \<^verbatim>\<open>nil\<close>. The model is the decision
  function: \<^verbatim>\<open>Model.Forward(input)\<close> followed by \<^verbatim>\<open>Model.GetOutput()\<close>.
\<close>

record cube =
  Name :: string
  Position :: "float64 list"
  UnitName :: string
  Model :: "float64 list \<Rightarrow> float64 list"
  ServerAddr :: string
  AuthPass :: string
  Delimiter :: string
  ClampMin :: float64
  ClampMax :: float64
  Debug :: bool
  conn :: "conn option"

text \<open>\<^verbatim>\<open>NewCube\<close>; the fields it does not name get Go's zero values.\<close>

definition NewCube ::
  "string \<Rightarrow> string \<Rightarrow> float64 list \<Rightarrow> (float64 list \<Rightarrow> float64 list) \<Rightarrow> string \<Rightarrow> string \<Rightarrow> string
     \<Rightarrow> cube" where
  "NewCube name unitName pos model server pass delim =
     \<lparr>Name = name, Position = pos, UnitName = unitName, Model = model, ServerAddr = server,
      AuthPass = pass, Delimiter = delim, ClampMin = Fin 0, ClampMax = Fin 0, Debug = False,
      conn = None\<rparr>"

text \<open>An example cube, as the package's example program builds its first one, with a
  decision function that always answers (25, -30, 5, 7).\<close>

definition example_cube :: cube where
  "example_cube =
     \<lparr>Name = ''cube_hello_0'', Position = [Fin 0, Fin 120, Fin 10], UnitName = ''HelloUnit'',
      Model = (\<lambda>input. [Fin 25, Fin (- 30), Fin 5, Fin 7]), ServerAddr = ''localhost:14000'',
      AuthPass = ''my_secure_password'', Delimiter = ''<???DONE???---'',
      ClampMin = Fin (- 20), ClampMax = Fin 20, Debug = False, conn = None\<rparr>"

text \<open>How a method ends: it returns \<^verbatim>\<open>nil\<close>, it returns an error, or it panics (an index
  out of range).\<close>

datatype result = Ok | Err error | Panic

text \<open>\<^verbatim>\<open>Cube.Spawn\<close>.\<close>

definition Spawn :: "(json \<Rightarrow> string) \<Rightarrow> env \<Rightarrow> cube \<Rightarrow> net \<Rightarrow> result \<times> cube \<times> net" where
  "Spawn enc e c n =
     (case Dial e n of
        (None, n1) \<Rightarrow> (Err ConnectFailed, c, n1)
      | (Some k, n1) \<Rightarrow>
          (case Write e k (cube.AuthPass c @ cube.Delimiter c) n1 of
             (Some err, n2) \<Rightarrow> (Err AuthFailed, c, Close k n2)
           | (None, n2) \<Rightarrow>
               (case readResponse e k (cube.Delimiter c) n2 of
                  (r, n3) \<Rightarrow>
                    (let c1 = c\<lparr>conn := Some k\<rparr>;
                         cmd = [(''type'', JString ''spawn_cube''),
                                (''cube_name'', JString (Name c1)),
                                (''position'', JArray (map JNumber (Position c1))),
                                (''rotation'', JArray [JNumber (Fin 0), JNumber (Fin 0), JNumber (Fin 0)]),
                                (''is_base'', JBool True)]
                     in (case sendJSONMessage enc e k cmd (cube.Delimiter c1) n3 of
                           (Some err, n4) \<Rightarrow> (Err SpawnFailed, c1, Close k n4)
                         | (None, n4) \<Rightarrow>
                             (let c2 = c1\<lparr>Name := Name c1 @ ''_BASE''\<rparr>
                              in if length (Position c2) < 3 then (Panic, c2, n4)
                                 else (Ok, c2,
                                       n4\<lparr>trace := trace n4 @
                                          [EvSpawned (Name c2) (take 3 (Position c2))]\<rparr>)))))))"

text \<open>\<^verbatim>\<open>Cube.Despawn\<close>: the deferred \<^verbatim>\<open>conn.Close()\<close> runs on every return after the dial.\<close>

definition Despawn :: "(json \<Rightarrow> string) \<Rightarrow> env \<Rightarrow> cube \<Rightarrow> net \<Rightarrow> result \<times> cube \<times> net" where
  "Despawn enc e c n =
     (case Dial e n of
        (None, n1) \<Rightarrow> (Err ConnectFailed, c, n1)
      | (Some k, n1) \<Rightarrow>
          (case Write e k (cube.AuthPass c @ cube.Delimiter c) n1 of
             (Some err, n2) \<Rightarrow> (Err AuthFailed, c, Close k n2)
           | (None, n2) \<Rightarrow>
               (case readResponse e k (cube.Delimiter c) n2 of
                  (r, n3) \<Rightarrow>
                    (let cmd = [(''type'', JString ''despawn_cube''),
                                (''cube_name'', JString (Name c))]
                     in (case sendJSONMessage enc e k cmd (cube.Delimiter c) n3 of
                           (Some err, n4) \<Rightarrow> (Err SendFailed, c, Close k n4)
                         | (None, n4) \<Rightarrow>
                             (Ok, c, Close k (n4\<lparr>trace := trace n4 @ [EvDespawned (Name c)]\<rparr>)))))))"

text \<open>The loop at the end of \<^verbatim>\<open>RefreshPosition\<close>, one step: \<open>pos\<close> has three elements;
  the assignment \<^verbatim>\<open>c.Position[i] = val\<close> panics when \<open>i\<close> is out of range. The state is
  (panicked, position).\<close>

definition assign_position :: "json list \<Rightarrow> bool \<times> float64 list \<Rightarrow> nat \<Rightarrow> bool \<times> float64 list" where
  "assign_position pos st i =
     (case st of
        (True, P) \<Rightarrow> (True, P)
      | (False, P) \<Rightarrow>
          (case pos ! i of
             JNumber val \<Rightarrow> if i < length P then (False, P[i := val]) else (True, P)
           | _ \<Rightarrow> (False, P)))"

text \<open>\<^verbatim>\<open>Cube.RefreshPosition\<close>. The parser \<^verbatim>\<open>json.Unmarshal\<close> into a
  \<^verbatim>\<open>map[string]interface{}\<close> is a parameter: \<open>None\<close> is its error.\<close>

definition RefreshPosition ::
  "(json \<Rightarrow> string) \<Rightarrow> (string \<Rightarrow> (string \<times> json) list option) \<Rightarrow> env \<Rightarrow> cube \<Rightarrow> net
     \<Rightarrow> result \<times> cube \<times> net" where
  "RefreshPosition enc Unmarshal e c n =
     (case conn c of
        None \<Rightarrow> (Err NoConnection, c, n)
      | Some k \<Rightarrow>
          (case sendJSONMessage enc e k [(''type'', JString ''get_cube_state'')] (cube.Delimiter c) n of
             (Some err, n1) \<Rightarrow> (Err StateRequestFailed, c, n1)
           | (None, n1) \<Rightarrow>
               (case readResponse e k (cube.Delimiter c) n1 of
                  ((raw, Some err), n2) \<Rightarrow> (Err StateReadFailed, c, n2)
                | ((raw, None), n2) \<Rightarrow>
                    (case Unmarshal raw of
                       None \<Rightarrow> (Err JSONParseError, c, n2)
                     | Some state \<Rightarrow>
                         (case index state ''position'' of
                            JArray pos \<Rightarrow>
                              if length pos \<noteq> 3 then (Err InvalidPositionFormat, c, n2)
                              else (case foldl (assign_position pos) (False, Position c) [0, 1, 2] of
                                      (True, P) \<Rightarrow> (Panic, c\<lparr>Position := P\<rparr>, n2)
                                    | (False, P) \<Rightarrow> (Ok, c\<lparr>Position := P\<rparr>, n2))
                          | _ \<Rightarrow> (Err InvalidPositionFormat, c, n2))))))"

text \<open>The clamp of one component in \<^verbatim>\<open>PulseWithModel\<close>.\<close>

definition clamp_component :: "cube \<Rightarrow> float64 \<Rightarrow> float64" where
  "clamp_component c v =
     (let v1 = (if flt (cube.ClampMax c) v then cube.ClampMax c else v);
          v2 = (if flt v1 (cube.ClampMin c) then cube.ClampMin c else v1)
      in v2)"

text \<open>\<^verbatim>\<open>Cube.PulseWithModel\<close>.\<close>

definition PulseWithModel ::
  "(json \<Rightarrow> string) \<Rightarrow> (string \<Rightarrow> (string \<times> json) list option) \<Rightarrow> env \<Rightarrow> cube \<Rightarrow> net
     \<Rightarrow> result \<times> cube \<times> net" where
  "PulseWithModel enc Unmarshal e c n =
     (case conn c of
        None \<Rightarrow> (Err NoConnection, c, n)
      | Some k \<Rightarrow>
          if length (Position c) < 3 then (Panic, c, n)
          else
            (let input = [Position c ! 0, Position c ! 1, Position c ! 2];
                 output = Model c input
             in if length output < 3 then (Err OutputTooShort, c, n)
                else
                  (let force = map (\<lambda>i. clamp_component c (output ! i)) [0, 1, 2];
                       msg = [(''type'', JString ''apply_force''),
                              (''force'', JArray (map JNumber force))]
                   in (case sendJSONMessage enc e k msg (cube.Delimiter c) n of
                         (Some err, n1) \<Rightarrow> (Err ApplyForceFailed, c, n1)
                       | (None, n1) \<Rightarrow> RefreshPosition enc Unmarshal e c n1))))"

section \<open>The construct\<close>

record construct =
  ServerAddr :: string
  AuthPass :: string
  Delimiter :: string
  Cubes :: "cube list"
  ClampMin :: float64
  ClampMax :: float64

definition maxRetries :: nat where
  "maxRetries = 5"

text \<open>The inner loop of \<^verbatim>\<open>DestroyAllCubes\<close>: one \<^verbatim>\<open>despawn_cube\<close> per listed name; a failed
  send is printed and the loop goes on.\<close>

fun despawn_each :: "(json \<Rightarrow> string) \<Rightarrow> env \<Rightarrow> string \<Rightarrow> conn \<Rightarrow> string list \<Rightarrow> net \<Rightarrow> net" where
  "despawn_each enc e delimiter k [] n = n"
| "despawn_each enc e delimiter k (cube # cubes) n =
     (case sendJSONMessage enc e k
             [(''type'', JString ''despawn_cube''), (''cube_name'', JString cube)] delimiter n of
        (Some err, n1) \<Rightarrow> despawn_each enc e delimiter k cubes (print (NukeFailedDespawn cube) n1)
      | (None, n1) \<Rightarrow> despawn_each enc e delimiter k cubes n1)"

text \<open>
  The retry loop of \<^verbatim>\<open>DestroyAllCubes\<close>, from the iteration \<open>attempt\<close> on. The result is
  \<open>False\<close> when the function returned from inside the loop and \<open>True\<close> when the loop was
  left (by its \<^verbatim>\<open>break\<close>, or with the attempts used up). The pause between two attempts
  is not modelled.
\<close>

function destroy_loop ::
  "(json \<Rightarrow> string) \<Rightarrow> (string \<Rightarrow> (string \<times> json) list option) \<Rightarrow> env \<Rightarrow> string \<Rightarrow> conn
     \<Rightarrow> nat \<Rightarrow> net \<Rightarrow> bool \<times> net" where
  "destroy_loop enc Unmarshal e delimiter k attempt n =
     (if attempt \<le> maxRetries then
        (case sendJSONMessage enc e k [(''type'', JString ''get_cube_list'')] delimiter n of
           (Some err, n1) \<Rightarrow> (False, print NukeFailedRequest n1)
         | (None, n1) \<Rightarrow>
             (case readResponse e k delimiter n1 of
                ((raw, Some err), n2) \<Rightarrow> (False, print NukeFailedRead n2)
              | ((raw, None), n2) \<Rightarrow>
                  (case Unmarshal raw of
                     None \<Rightarrow> (False, print NukeUnmarshalError n2)
                   | Some cubeData \<Rightarrow>
                       (let cubes = toStringArray (index cubeData ''cubes'')
                        in if length cubes = 0 then (True, print NukeAllCleared n2)
                           else destroy_loop enc Unmarshal e delimiter k (attempt + 1)
                                  (print (NukeNuked (length cubes) attempt)
                                     (despawn_each enc e delimiter k cubes n2))))))
      else (True, n))"
  by pat_completeness auto
termination
  by (relation "measure (\<lambda>(enc, Unmarshal, e, delimiter, k, attempt, n). Suc maxRetries - attempt)")
     auto

text \<open>\<^verbatim>\<open>Construct.DestroyAllCubes\<close>; the deferred \<^verbatim>\<open>conn.Close()\<close> runs on every return
  after the dial.\<close>

definition DestroyAllCubes ::
  "(json \<Rightarrow> string) \<Rightarrow> (string \<Rightarrow> (string \<times> json) list option) \<Rightarrow> env \<Rightarrow> construct \<Rightarrow> net \<Rightarrow> net" where
  "DestroyAllCubes enc Unmarshal e c n =
     (case Dial e n of
        (None, n1) \<Rightarrow> print NukeFailedConnect n1
      | (Some k, n1) \<Rightarrow>
          (case Write e k (construct.AuthPass c @ construct.Delimiter c) n1 of
             (Some err, n2) \<Rightarrow> Close k (print NukeFailedAuth n2)
           | (None, n2) \<Rightarrow>
               (case readResponse e k (construct.Delimiter c) n2 of
                  (r, n3) \<Rightarrow>
                    (case destroy_loop enc Unmarshal e (construct.Delimiter c) k 1 n3 of
                       (False, n4) \<Rightarrow> Close k n4
                     | (True, n4) \<Rightarrow> Close k (print NukeFinished n4)))))"

section \<open>Notions used to state the properties\<close>

declare readLoop.simps [simp del] chunks.simps [simp del] ReplaceAll_empty.simps [simp del]
  destroy_loop.simps [simp del] TrimLeftSpace.simps [simp del] TrimRightSpace.simps [simp del]

text \<open>A stream up to and including its last \<open>-\<close>; empty when it has none.\<close>

definition up_to_last_dash :: "string \<Rightarrow> string" where
  "up_to_last_dash s = rev (dropWhile (\<lambda>c. c \<noteq> CHR ''-'') (rev s))"

text \<open>The state of a process that has not used the network yet.\<close>

definition net0 :: net where
  "net0 = \<lparr>dials = 0, writes = 0, reads = 0, closed = [], trace = []\<rparr>"

text \<open>An example network: every dial succeeds, every write succeeds but the one numbered
  \<open>failing\<close> (if any), and every \<^verbatim>\<open>readResponse\<close> receives the bytes \<open>s\<close>.\<close>

definition example_env :: "nat option \<Rightarrow> string \<Rightarrow> env" where
  "example_env failing s =
     \<lparr>dial_ok = (\<lambda>i. True), write_ok = (\<lambda>i d. Some i \<noteq> failing), inbound = (\<lambda>i. s)\<rparr>"

text \<open>The borders of a string: its non-empty proper prefixes that are also suffixes.\<close>

definition borders :: "string \<Rightarrow> string list" where
  "borders d = filter (\<lambda>t. t \<noteq> [] \<and> t \<noteq> d \<and> suffix t d) (prefixes d)"

text \<open>An example encoder: the two requests without fields as \<^verbatim>\<open>json.Marshal\<close> writes
  them, and an empty object for every other value.\<close>

definition example_enc :: "json \<Rightarrow> string" where
  "example_enc v =
     (if v = JObject [(''type'', JString ''get_cube_list'')] then ''{\"type\":\"get_cube_list\"}''
      else if v = JObject [(''type'', JString ''get_cube_state'')] then ''{\"type\":\"get_cube_state\"}''
      else ''{}'')"

text \<open>An example parser: the three responses used in the examples, and an error for every
  other string.\<close>

definition example_Unmarshal :: "string \<Rightarrow> (string \<times> json) list option" where
  "example_Unmarshal raw =
     (if raw = ''{\"position\":[1,\"x\",3]}''
        then Some [(''position'', JArray [JNumber (Fin 1), JString ''x'', JNumber (Fin 3)])]
      else if raw = ''{\"cubes\":[\"a\"]}'' then Some [(''cubes'', JArray [JString ''a''])]
      else if raw = ''{\"cubes\":[]}'' then Some [(''cubes'', JArray [])]
      else None)"

text \<open>An example server that answers every read with a cube state whose second position
  component is a string.\<close>

definition example_server :: env where
  "example_server = example_env None ''{\"position\":[1,\"x\",3]}<???DONE???---''"


text \<open>The example cube holding connection 0.\<close>

definition connected_cube :: cube where
  "connected_cube = example_cube\<lparr>conn := Some 0\<rparr>"

text \<open>The number a JSON value is, or else the old value.\<close>

definition number_or :: "json \<Rightarrow> float64 \<Rightarrow> float64" where
  "number_or v old = (case v of JNumber val \<Rightarrow> val | _ \<Rightarrow> old)"

text \<open>What the loop at the end of \<^verbatim>\<open>RefreshPosition\<close> is to leave in \<open>Position\<close>, component
  by component: the number the response has at this index, or the old value.\<close>

definition refreshed :: "json list \<Rightarrow> float64 list \<Rightarrow> float64 list" where
  "refreshed pos P =
     map (\<lambda>i. if i < 3 then number_or (pos ! i) (P ! i) else P ! i) [0..<length P]"

text \<open>One assignment of that loop on a position that is long enough.\<close>

definition assign_at :: "json list \<Rightarrow> nat \<Rightarrow> float64 list \<Rightarrow> float64 list" where
  "assign_at pos i Q = (case pos ! i of JNumber val \<Rightarrow> Q[i := val] | _ \<Rightarrow> Q)"

text \<open>Strings that consist of white space code points only.\<close>

inductive white :: "string \<Rightarrow> bool" where
  white_Nil: "white []"
| white_Cons: "w \<in> set white_space \<Longrightarrow> white s \<Longrightarrow> white (w @ s)"

text \<open>An example of a truncated response with white space in front of it: a line feed, a
  no-break space (U+00A0) and a space.\<close>

definition padded_stream :: string where
  "padded_stream = CHR 0x0A # CHR 0xC2 # CHR 0xA0 # CHR 0x20 # ''{\"x\":-1''"

text \<open>The pass numbers of the passes that \<^verbatim>\<open>DestroyAllCubes\<close> reports as done, in the order
  of a trace: one per list request that was followed by its despawn commands.\<close>

fun passes :: "event list \<Rightarrow> nat list" where
  "passes [] = []"
| "passes (EvPrint (NukeNuked cnt attempt) # evs) = attempt # passes evs"
| "passes (ev # evs) = passes evs"

text \<open>The byte strings handed to \<^verbatim>\<open>conn.Write\<close>, in the order of a trace.\<close>

fun sent :: "event list \<Rightarrow> string list" where
  "sent [] = []"
| "sent (EvWrite k d ok # evs) = d # sent evs"
| "sent (ev # evs) = sent evs"

text \<open>The number of \<^verbatim>\<open>readResponse\<close> calls in a trace.\<close>

fun count_reads :: "event list \<Rightarrow> nat" where
  "count_reads [] = 0"
| "count_reads (EvRead k d # evs) = Suc (count_reads evs)"
| "count_reads (ev # evs) = count_reads evs"

text \<open>The events inside one pass: writes, reads and reports of a failed despawn.\<close>

fun pass_event :: "event \<Rightarrow> bool" where
  "pass_event (EvWrite k d ok) = True"
| "pass_event (EvRead k d) = True"
| "pass_event (EvPrint (NukeFailedDespawn cube)) = True"
| "pass_event ev = False"

text \<open>A piece of a run: it adds the events \<open>evs\<close> to the trace, opens and closes no
  connection, and makes the reads that are among the events.\<close>

definition adds :: "net \<Rightarrow> event list \<Rightarrow> net \<Rightarrow> bool" where
  "adds n evs n' =
     (trace n' = trace n @ evs \<and> closed n' = closed n \<and> dials n' = dials n \<and>
      reads n' = reads n + count_reads evs)"

text \<open>The bytes of a list request and of the despawn command for a cube, and the cube names
  that the response to the \<open>j\<close>-th read lists (none if it does not parse).\<close>

definition list_request_bytes :: "(json \<Rightarrow> string) \<Rightarrow> string \<Rightarrow> string" where
  "list_request_bytes enc dl = enc (JObject [(''type'', JString ''get_cube_list'')]) @ dl"

definition despawn_bytes :: "(json \<Rightarrow> string) \<Rightarrow> string \<Rightarrow> string \<Rightarrow> string" where
  "despawn_bytes enc dl cube =
     enc (JObject [(''type'', JString ''despawn_cube''), (''cube_name'', JString cube)]) @ dl"

definition listed ::
  "(string \<Rightarrow> (string \<times> json) list option) \<Rightarrow> string \<Rightarrow> env \<Rightarrow> nat \<Rightarrow> string list" where
  "listed U dl e j =
     (case U (fst (readResponse_bytes dl (inbound e j))) of
        None \<Rightarrow> []
      | Some cubeData \<Rightarrow> toStringArray (index cubeData ''cubes''))"

text \<open>What a full pass writes when its list response is the \<open>j\<close>-th read: the list request,
  then one despawn command for each listed name, in the order of the list.\<close>

definition pass_writes ::
  "(json \<Rightarrow> string) \<Rightarrow> (string \<Rightarrow> (string \<times> json) list option) \<Rightarrow> string \<Rightarrow> env \<Rightarrow> nat
     \<Rightarrow> string list" where
  "pass_writes enc U dl e j =
     list_request_bytes enc dl # map (despawn_bytes enc dl) (listed U dl e j)"

text \<open>What the retry loop started at \<open>attempt\<close> has done when it ends: the passes it reports
  are \<open>attempt\<close>, \<open>attempt + 1\<close>, ... below some bound that is at most one more than the
  attempts allowed; it has read at most once for each attempt that was left; and if it
  printed that all cubes are cleared, that is the last thing it did and the loop was left,
  not the function.\<close>

definition loop_post :: "nat \<Rightarrow> net \<Rightarrow> bool \<Rightarrow> net \<Rightarrow> bool" where
  "loop_post attempt n b n' =
     (\<exists>evs m. adds n evs n' \<and> m \<le> Suc maxRetries \<and> passes evs = [attempt..<m] \<and>
             count_reads evs \<le> Suc maxRetries - attempt \<and>
             (EvPrint NukeAllCleared \<in> set evs \<longrightarrow> b \<and> last evs = EvPrint NukeAllCleared))"

text \<open>An example construct, with the delimiter and the password of the package's
  configuration.\<close>

definition example_construct :: construct where
  "example_construct =
     \<lparr>ServerAddr = ''localhost:14000'', AuthPass = ''my_secure_password'',
      Delimiter = ''<???DONE???---'', Cubes = [example_cube],
      ClampMin = Fin (- 20), ClampMax = Fin 20\<rparr>"

text \<open>An example encoder that knows the list request and the despawn command for the cube
  \<open>a\<close> (\<^verbatim>\<open>encoding/json\<close> writes the keys of a map in sorted order).\<close>

definition nuke_enc :: "json \<Rightarrow> string" where
  "nuke_enc v =
     (if v = JObject [(''type'', JString ''get_cube_list'')] then ''{\"type\":\"get_cube_list\"}''
      else if v = JObject [(''type'', JString ''despawn_cube''), (''cube_name'', JString ''a'')]
        then ''{\"cube_name\":\"a\",\"type\":\"despawn_cube\"}''
      else ''{}'')"

text \<open>Two example servers. The first answers the password with a line that is not JSON, and
  every later read with a list of one cube; the second answers every read with an empty
  list.\<close>

definition handshake_server :: env where
  "handshake_server =
     \<lparr>dial_ok = (\<lambda>i. True), write_ok = (\<lambda>i d. True),
      inbound = (\<lambda>j. if j = 0 then ''OK<???DONE???---''
                      else ''{\"cubes\":[\"a\"]}<???DONE???---'')\<rparr>"

definition empty_server :: env where
  "empty_server = example_env None ''{\"cubes\":[]}<???DONE???---''"

section \<open>Properties of the framed transport\<close>

text \<open>The equations that evaluate \<^verbatim>\<open>TrimSpace\<close> on a given string.\<close>

lemmas TrimSpace_eval = TrimSpace_def TrimLeftSpace.simps TrimRightSpace.simps white_space_def
  suffix_to_prefix

lemma Contains_iff: "Contains s sub \<longleftrightarrow> (\<exists>p q. s = p @ sub @ q)"
proof (induction s)
  case Nil
  then show ?case by auto
next
  case (Cons c cs)
  show ?case
  proof
    assume "Contains (c # cs) sub"
    then consider "prefix sub (c # cs)" | "Contains cs sub" by auto
    then show "\<exists>p q. c # cs = p @ sub @ q"
    proof cases
      case 1
      then obtain q where "c # cs = sub @ q" by (auto simp: prefix_def)
      then have "c # cs = [] @ sub @ q" by simp
      then show ?thesis by blast
    next
      case 2
      with Cons.IH obtain p q where "cs = p @ sub @ q" by blast
      then have "c # cs = (c # p) @ sub @ q" by simp
      then show ?thesis by blast
    qed
  next
    assume "\<exists>p q. c # cs = p @ sub @ q"
    then obtain p q where pq: "c # cs = p @ sub @ q" by blast
    show "Contains (c # cs) sub"
    proof (cases p)
      case Nil
      with pq have "prefix sub (c # cs)" by (simp add: prefix_def)
      then show ?thesis by simp
    next
      case (Cons a p')
      with pq have "cs = p' @ sub @ q" by simp
      with Cons.IH have "Contains cs sub" by blast
      then show ?thesis by simp
    qed
  qed
qed

lemma ReadString_split:
  "ReadString d s = (line, err, rest) \<Longrightarrow>
     s = line @ rest \<and> (err \<longrightarrow> rest = [] \<and> d \<notin> set line)
       \<and> (\<not> err \<longrightarrow> (\<exists>pre. line = pre @ [d] \<and> d \<notin> set pre))"
proof (induction s arbitrary: line err rest)
  case Nil
  then show ?case by simp
next
  case (Cons c cs)
  show ?case
  proof (cases "c = d")
    case True
    with Cons.prems show ?thesis by auto
  next
    case False
    obtain l1 e1 r1 where r: "ReadString d cs = (l1, e1, r1)" by (cases "ReadString d cs") auto
    with False Cons.prems have eq: "line = c # l1" "err = e1" "rest = r1" by auto
    from Cons.IH[OF r] have ih: "cs = l1 @ r1" "e1 \<longrightarrow> r1 = [] \<and> d \<notin> set l1"
      "\<not> e1 \<longrightarrow> (\<exists>pre. l1 = pre @ [d] \<and> d \<notin> set pre)" by auto
    show ?thesis
    proof (intro conjI impI)
      show "c # cs = line @ rest" using ih eq by simp
      show "rest = []" if "err" using that ih eq by simp
      show "d \<notin> set line" if "err" using that ih eq False by auto
      show "\<exists>pre. line = pre @ [d] \<and> d \<notin> set pre" if "\<not> err"
      proof -
        from that ih eq obtain pre where "l1 = pre @ [d]" "d \<notin> set pre" by auto
        then have "line = (c # pre) @ [d] \<and> d \<notin> set (c # pre)" using eq False by auto
        then show ?thesis by blast
      qed
    qed
  qed
qed

lemma readLoop_no_detect:
  "(\<forall>l \<in> set (chunks s). \<not> Contains l D) \<Longrightarrow> readLoop D b s = (b @ concat (chunks s), ReadError)"
proof (induction D b s rule: readLoop.induct)
  case (1 delimiter builder stream)
  obtain line err rest where r: "ReadString (CHR ''-'') stream = (line, err, rest)"
    by (cases "ReadString (CHR ''-'') stream") auto
  show ?case
  proof (cases err)
    case True
    with r show ?thesis by (subst readLoop.simps, subst chunks.simps) simp
  next
    case False
    with r have ch: "chunks stream = line # chunks rest" by (subst chunks.simps) simp
    with "1.prems" have nd: "\<not> Contains line delimiter" and rest: "\<forall>l \<in> set (chunks rest). \<not> Contains l delimiter"
      by auto
    from "1.IH"[OF r[symmetric] refl _ nd rest] False
    have "readLoop delimiter (builder @ line) rest = ((builder @ line) @ concat (chunks rest), ReadError)"
      by simp
    with r False nd ch show ?thesis by (subst readLoop.simps) simp
  qed
qed

lemma up_to_last_dash_none:
  assumes "CHR ''-'' \<notin> set s"
  shows "up_to_last_dash s = []"
proof -
  from assms have "\<forall>x \<in> set (rev s). x \<noteq> CHR ''-''" by (simp only: set_rev) blast
  then have "dropWhile (\<lambda>c. c \<noteq> CHR ''-'') (rev s) = []"
    by (simp only: dropWhile_eq_Nil_conv)
  then show ?thesis by (simp only: up_to_last_dash_def rev.simps)
qed

lemma up_to_last_dash_step:
  "up_to_last_dash (pre @ CHR ''-'' # rest) = pre @ CHR ''-'' # up_to_last_dash rest"
proof (cases "CHR ''-'' \<in> set rest")
  case True
  then show ?thesis by (auto simp: up_to_last_dash_def dropWhile_append)
next
  case False
  then show ?thesis by (auto simp: up_to_last_dash_def dropWhile_append dropWhile_eq_Nil_conv)
qed

lemma concat_chunks: "concat (chunks s) = up_to_last_dash s"
proof (induction s rule: chunks.induct)
  case (1 stream)
  obtain line err rest where r: "ReadString (CHR ''-'') stream = (line, err, rest)"
    by (cases "ReadString (CHR ''-'') stream") auto
  note sp = ReadString_split[OF r]
  show ?case
  proof (cases err)
    case True
    with sp have "CHR ''-'' \<notin> set stream" by auto
    with r True show ?thesis by (subst chunks.simps) (simp add: up_to_last_dash_none)
  next
    case False
    with sp obtain pre where pre: "line = pre @ [CHR ''-'']" "stream = line @ rest" by auto
    from "1.IH"[OF r[symmetric] refl] False have "concat (chunks rest) = up_to_last_dash rest" by simp
    with r False pre show ?thesis
      by (subst chunks.simps) (simp add: up_to_last_dash_step)
  qed
qed

lemma chunk_shape:
  "l \<in> set (chunks s) \<Longrightarrow> (\<exists>pre. l = pre @ [CHR ''-''] \<and> CHR ''-'' \<notin> set pre) \<and> (\<exists>p q. s = p @ l @ q)"
proof (induction s rule: chunks.induct)
  case (1 stream)
  obtain line err rest where r: "ReadString (CHR ''-'') stream = (line, err, rest)"
    by (cases "ReadString (CHR ''-'') stream") auto
  note sp = ReadString_split[OF r]
  show ?case
  proof (cases err)
    case True
    with r "1.prems" show ?thesis by (subst (asm) chunks.simps) simp
  next
    case False
    with r "1.prems" have "l = line \<or> l \<in> set (chunks rest)" by (subst (asm) chunks.simps) auto
    then show ?thesis
    proof
      assume "l = line"
      moreover from sp have "stream = [] @ line @ rest" by simp
      ultimately show ?thesis using sp False by blast
    next
      assume "l \<in> set (chunks rest)"
      from "1.IH"[OF r[symmetric] refl _ this] False
      obtain p q where sh: "\<exists>pre. l = pre @ [CHR ''-''] \<and> CHR ''-'' \<notin> set pre" and pq: "rest = p @ l @ q" by auto
      from sp pq have "stream = (line @ p) @ l @ q" by simp
      with sh show ?thesis by blast
    qed
  qed
qed


lemma no_chunk_contains:
  assumes "\<not> Contains s D" and "l \<in> set (chunks s)"
  shows "\<not> Contains l D"
proof
  assume "Contains l D"
  then obtain p q where l: "l = p @ D @ q" by (auto simp: Contains_iff)
  from chunk_shape[OF assms(2)] obtain p' q' where "s = p' @ l @ q'" by blast
  with l have "s = (p' @ p) @ D @ (q @ q')" by simp
  then have "Contains s D" unfolding Contains_iff by blast
  with assms(1) show False by simp
qed



lemma white_append: "white a \<Longrightarrow> white b \<Longrightarrow> white (a @ b)"
proof (induction a rule: white.induct)
  case white_Nil
  then show ?case by simp
next
  case (white_Cons w s)
  from white_Cons.IH [OF white_Cons.prems] have "white (s @ b)" .
  with white_Cons.hyps(1) have "white (w @ (s @ b))" by (rule white.white_Cons)
  then show ?case by simp
qed

lemma white_single: "w \<in> set white_space \<Longrightarrow> white w"
  using white.white_Cons[of w "[]"] white.white_Nil by simp

lemma TrimLeftSpace_split:
  "\<exists>l. s = l @ TrimLeftSpace s \<and> white l \<and> (\<forall>w \<in> set white_space. \<not> prefix w (TrimLeftSpace s))"
proof (induction s rule: TrimLeftSpace.induct)
  case (1 s)
  show ?case
  proof (cases "find (\<lambda>w. prefix w s) white_space")
    case None
    then have t: "TrimLeftSpace s = s" by (subst TrimLeftSpace.simps) simp
    from None have "\<forall>w \<in> set white_space. \<not> prefix w s" by (simp add: find_None_iff)
    with t have "s = [] @ TrimLeftSpace s \<and> white [] \<and>
        (\<forall>w \<in> set white_space. \<not> prefix w (TrimLeftSpace s))"
      by (simp add: white.white_Nil)
    then show ?thesis by blast
  next
    case (Some w)
    then have t: "TrimLeftSpace s = TrimLeftSpace (drop (length w) s)"
      by (subst TrimLeftSpace.simps) simp
    from Some have w: "w \<in> set white_space" "prefix w s" by (auto simp: find_Some_iff)
    then have s: "s = w @ drop (length w) s" by (auto simp: prefix_def)
    from "1.IH"[OF Some] obtain l where l: "drop (length w) s = l @ TrimLeftSpace (drop (length w) s)"
      "white l" "\<forall>v \<in> set white_space. \<not> prefix v (TrimLeftSpace (drop (length w) s))" by blast
    from s l(1) t have "s = (w @ l) @ TrimLeftSpace s" by simp
    moreover from w(1) l(2) have "white (w @ l)" by (rule white.white_Cons)
    ultimately show ?thesis using l(3) t by metis
  qed
qed

lemma TrimRightSpace_split:
  "\<exists>r. s = TrimRightSpace s @ r \<and> white r \<and> (\<forall>w \<in> set white_space. \<not> suffix w (TrimRightSpace s))"
proof (induction s rule: TrimRightSpace.induct)
  case (1 s)
  show ?case
  proof (cases "find (\<lambda>w. suffix w s) white_space")
    case None
    then have t: "TrimRightSpace s = s" by (subst TrimRightSpace.simps) simp
    from None have "\<forall>w \<in> set white_space. \<not> suffix w s" by (simp add: find_None_iff)
    with t have "s = TrimRightSpace s @ [] \<and> white [] \<and>
        (\<forall>w \<in> set white_space. \<not> suffix w (TrimRightSpace s))"
      by (simp add: white.white_Nil)
    then show ?thesis by blast
  next
    case (Some w)
    let ?s' = "take (length s - length w) s"
    from Some have t: "TrimRightSpace s = TrimRightSpace ?s'"
      by (subst TrimRightSpace.simps) simp
    from Some have w: "w \<in> set white_space" "suffix w s" by (auto simp: find_Some_iff)
    then have s: "s = ?s' @ w" by (auto simp: suffix_def)
    from "1.IH"[OF Some] obtain r where r: "?s' = TrimRightSpace ?s' @ r"
      "white r" "\<forall>v \<in> set white_space. \<not> suffix v (TrimRightSpace ?s')" by blast
    from s r(1) t have "s = TrimRightSpace s @ (r @ w)" by (metis append.assoc)
    moreover have "white (r @ w)" by (rule white_append [OF r(2) white_single [OF w(1)]])
    ultimately show ?thesis using r(3) t by metis
  qed
qed

lemma TrimSpace_split:
  "\<exists>l r. s = l @ TrimSpace s @ r \<and> white l \<and> white r \<and>
         (\<forall>w \<in> set white_space. \<not> prefix w (TrimSpace s) \<and> \<not> suffix w (TrimSpace s))"
proof -
  let ?u = "TrimLeftSpace s"
  from TrimLeftSpace_split[of s] obtain l where l: "s = l @ ?u" "white l"
    "\<forall>w \<in> set white_space. \<not> prefix w ?u" by blast
  from TrimRightSpace_split[of ?u] obtain r where r: "?u = TrimRightSpace ?u @ r" "white r"
    "\<forall>w \<in> set white_space. \<not> suffix w (TrimRightSpace ?u)" by blast
  have "\<not> prefix w (TrimRightSpace ?u)" if "w \<in> set white_space" for w
  proof
    assume "prefix w (TrimRightSpace ?u)"
    then have "prefix w (TrimRightSpace ?u @ r)" by (rule prefix_prefix)
    with r(1) have "prefix w ?u" by simp
    with l(3) that show False by blast
  qed
  moreover from l(1) r(1) have "s = l @ TrimSpace s @ r" by (simp add: TrimSpace_def)
  ultimately show ?thesis using l(2) r(2,3) unfolding TrimSpace_def by blast
qed

lemma up_to_last_dash_prefix: "\<exists>t. s = up_to_last_dash s @ t"
proof -
  let ?P = "\<lambda>c. c \<noteq> CHR ''-''"
  have "s = rev (takeWhile ?P (rev s) @ dropWhile ?P (rev s))" by simp
  also have "\<dots> = rev (dropWhile ?P (rev s)) @ rev (takeWhile ?P (rev s))"
    by (simp only: rev_append)
  finally have "s = up_to_last_dash s @ rev (takeWhile ?P (rev s))"
    by (simp only: up_to_last_dash_def)
  then show ?thesis ..
qed

lemma ReplaceAll_empty_none: "\<not> Contains b D \<Longrightarrow> ReplaceAll_empty b D = b"
proof (induction b)
  case Nil
  show ?case by (subst ReplaceAll_empty.simps) simp
next
  case (Cons c b)
  then have "\<not> prefix D (c # b)" "\<not> Contains b D" by simp_all
  with Cons.IH show ?case by (subst ReplaceAll_empty.simps) simp
qed

text \<open>
  Claim C2, amended. \<^verbatim>\<open>readResponse\<close> returns a \<^verbatim>\<open>nil\<close> error on every connection and every
  input. When the bytes that arrive before the reads fail do not contain the delimiter, the
  result is made from the received bytes up to and including the last \<open>-\<close>, not from all
  the bytes received: there is no occurrence of the delimiter to remove from them, and the
  result is what is left of them when white space is cut off at both ends; it neither
  starts nor ends with a white space code point.
\<close>

theorem readResponse_truncated:
  "snd (fst (readResponse e k delimiter n)) = None \<and>
   (k \<notin> set (closed n) \<and> \<not> Contains (inbound e (reads n)) delimiter \<longrightarrow>
      ReplaceAll_empty (up_to_last_dash (inbound e (reads n))) delimiter
        = up_to_last_dash (inbound e (reads n)) \<and>
      (\<exists>l r. up_to_last_dash (inbound e (reads n))
                = l @ fst (fst (readResponse e k delimiter n)) @ r \<and>
             white l \<and> white r \<and>
             (\<forall>w \<in> set white_space.
                \<not> prefix w (fst (fst (readResponse e k delimiter n))) \<and>
                \<not> suffix w (fst (fst (readResponse e k delimiter n))))))"
proof (intro conjI impI)
  show "snd (fst (readResponse e k delimiter n)) = None"
    by (simp add: readResponse_def readResponse_bytes_def Let_def split: prod.splits)
next
  assume a: "k \<notin> set (closed n) \<and> \<not> Contains (inbound e (reads n)) delimiter"
  let ?s = "inbound e (reads n)"
  let ?b = "up_to_last_dash ?s"
  from a have "\<forall>l \<in> set (chunks ?s). \<not> Contains l delimiter"
    using no_chunk_contains[of ?s delimiter] by blast
  then have lp: "readLoop delimiter [] ?s = (?b, ReadError)"
    using readLoop_no_detect[of ?s delimiter "[]"] by (simp add: concat_chunks)
  from up_to_last_dash_prefix[of ?s] obtain t where t: "?s = ?b @ t" ..
  have "\<not> Contains ?b delimiter"
  proof
    assume "Contains ?b delimiter"
    then obtain p q where "?b = p @ delimiter @ q" by (auto simp: Contains_iff)
    with t have "?s = p @ delimiter @ (q @ t)" by (metis append.assoc)
    then have "Contains ?s delimiter" unfolding Contains_iff by blast
    with a show False by simp
  qed
  then show ra: "ReplaceAll_empty ?b delimiter = ?b" by (rule ReplaceAll_empty_none)
  from a lp ra have res: "fst (fst (readResponse e k delimiter n)) = TrimSpace ?b"
    by (simp add: readResponse_def readResponse_bytes_def Let_def)
  from TrimSpace_split[of ?b]
  show "\<exists>l r. ?b = l @ fst (fst (readResponse e k delimiter n)) @ r \<and> white l \<and> white r \<and>
             (\<forall>w \<in> set white_space.
                \<not> prefix w (fst (fst (readResponse e k delimiter n))) \<and>
                \<not> suffix w (fst (fst (readResponse e k delimiter n))))"
    by (simp only: res)
qed

theorem readResponse_truncated_witness:
  "snd (fst (readResponse (example_env None padded_stream) 0 ''<???DONE???---'' net0)) = None \<and>
   0 \<notin> set (closed net0) \<and>
   \<not> Contains (inbound (example_env None padded_stream) (reads net0)) ''<???DONE???---'' \<and>
   up_to_last_dash (inbound (example_env None padded_stream) (reads net0))
     = CHR 0x0A # CHR 0xC2 # CHR 0xA0 # CHR 0x20 # ''{\"x\":-'' \<and>
   fst (fst (readResponse (example_env None padded_stream) 0 ''<???DONE???---'' net0))
     = ''{\"x\":-'' \<and>
   (\<exists>l r. CHR 0x0A # CHR 0xC2 # CHR 0xA0 # CHR 0x20 # ''{\"x\":-'' = l @ ''{\"x\":-'' @ r \<and>
          white l \<and> white r)"
proof -
  let ?e = "example_env None padded_stream"
  let ?d = "''<???DONE???---''"
  have k: "0 \<notin> set (closed net0)" by (simp add: net0_def)
  have i: "inbound ?e (reads net0) = padded_stream" by (simp add: example_env_def)
  have c: "\<not> Contains (inbound ?e (reads net0)) ?d"
    unfolding i by (simp add: padded_stream_def)
  have u: "up_to_last_dash (inbound ?e (reads net0))
      = CHR 0x0A # CHR 0xC2 # CHR 0xA0 # CHR 0x20 # ''{\"x\":-''"
    unfolding i by (simp add: padded_stream_def up_to_last_dash_def)
  have v: "fst (fst (readResponse ?e 0 ?d net0)) = ''{\"x\":-''"
    by (simp add: readResponse_def readResponse_bytes_def readLoop.simps ReplaceAll_empty.simps
          TrimSpace_eval example_env_def net0_def padded_stream_def Let_def)
  from readResponse_truncated [of ?e 0 ?d net0] k c
  have "snd (fst (readResponse ?e 0 ?d net0)) = None"
    and "\<exists>l r. up_to_last_dash (inbound ?e (reads net0))
                = l @ fst (fst (readResponse ?e 0 ?d net0)) @ r \<and> white l \<and> white r \<and>
             (\<forall>w \<in> set white_space.
                \<not> prefix w (fst (fst (readResponse ?e 0 ?d net0))) \<and>
                \<not> suffix w (fst (fst (readResponse ?e 0 ?d net0))))"
    by blast+
  then have "snd (fst (readResponse ?e 0 ?d net0)) = None"
    and "\<exists>l r. CHR 0x0A # CHR 0xC2 # CHR 0xA0 # CHR 0x20 # ''{\"x\":-'' = l @ ''{\"x\":-'' @ r \<and>
          white l \<and> white r"
    unfolding u v by blast+
  with k c u v show ?thesis by blast
qed

text \<open>
  The claim as stated, that the partial buffer is returned, fails: the bytes
  \<^verbatim>\<open>{"position":[1,2,3]}\<close> arrive and then the deadline passes. They hold no delimiter and
  no white space at either end, and \<^verbatim>\<open>readResponse\<close> returns the empty string: the line that
  \<^verbatim>\<open>ReadString\<close> returns together with the error is dropped.
\<close>

theorem readResponse_drops_partial_line:
  "\<not> Contains ''{\"position\":[1,2,3]}'' ''<???DONE???---'' \<and>
   fst (readResponse (example_env None ''{\"position\":[1,2,3]}'') 0 ''<???DONE???---'' net0)
     = ([], None) \<and>
   TrimSpace (ReplaceAll_empty ''{\"position\":[1,2,3]}'' ''<???DONE???---'')
     = ''{\"position\":[1,2,3]}''"
  by (simp add: readResponse_def readResponse_bytes_def readLoop.simps ReplaceAll_empty.simps
        TrimSpace_eval example_env_def net0_def Let_def)



lemma readLoop_whole:
  "s \<noteq> [] \<Longrightarrow> last s = CHR ''-'' \<Longrightarrow> (\<forall>p q. s = p @ D @ q \<longrightarrow> q = [])
     \<Longrightarrow> fst (readLoop D b s) = b @ s"
proof (induction D b s rule: readLoop.induct)
  case (1 delimiter builder stream)
  obtain line err rest where r: "ReadString (CHR ''-'') stream = (line, err, rest)"
    by (cases "ReadString (CHR ''-'') stream") auto
  note sp = ReadString_split[OF r]
  from "1.prems" have dash: "CHR ''-'' \<in> set stream" by (metis last_in_set)
  show ?case
  proof (cases err)
    case True
    with sp dash show ?thesis by auto
  next
    case False
    show ?thesis
    proof (cases "Contains line delimiter")
      case True
      then obtain p q where "line = p @ delimiter @ q" by (auto simp: Contains_iff)
      with sp have "stream = p @ delimiter @ (q @ rest)" by simp
      with "1.prems"(3) have "q @ rest = []" by blast
      with sp have "stream = line" by simp
      with r False True show ?thesis by (subst readLoop.simps) simp
    next
      case nd: False
      show ?thesis
      proof (cases "rest = []")
        case True
        have "readLoop delimiter (builder @ line) [] = (builder @ line, ReadError)"
          by (subst readLoop.simps) simp
        with r False nd True sp show ?thesis by (subst readLoop.simps) simp
      next
        case ne: False
        with sp "1.prems"(2) have l: "last rest = CHR ''-''" by simp
        have o: "\<forall>p q. rest = p @ delimiter @ q \<longrightarrow> q = []"
        proof (intro allI impI)
          fix p q assume "rest = p @ delimiter @ q"
          with sp have "stream = (line @ p) @ delimiter @ q" by simp
          with "1.prems"(3) show "q = []" by blast
        qed
        from "1.IH"[OF r[symmetric] refl _ nd ne l o] False
        have "fst (readLoop delimiter (builder @ line) rest) = (builder @ line) @ rest" by simp
        with r False nd sp show ?thesis by (subst readLoop.simps) simp
      qed
    qed
  qed
qed

lemma ReplaceAll_empty_suffix:
  "D \<noteq> [] \<Longrightarrow> (\<forall>p q. x @ D = p @ D @ q \<longrightarrow> q = []) \<Longrightarrow> ReplaceAll_empty (x @ D) D = x"
proof (induction x)
  case Nil
  have "ReplaceAll_empty [] D = []" by (subst ReplaceAll_empty.simps) simp
  with Nil show ?case by (subst ReplaceAll_empty.simps) simp
next
  case (Cons c x)
  have np: "\<not> prefix D ((c # x) @ D)"
  proof
    assume "prefix D ((c # x) @ D)"
    then obtain q where q: "(c # x) @ D = [] @ D @ q" by (auto simp: prefix_def)
    with Cons.prems(2) have "q = []" by blast
    with q show False by simp
  qed
  have "\<forall>p q. x @ D = p @ D @ q \<longrightarrow> q = []"
  proof (intro allI impI)
    fix p q assume "x @ D = p @ D @ q"
    then have "(c # x) @ D = (c # p) @ D @ q" by simp
    with Cons.prems(2) show "q = []" by blast
  qed
  with Cons have "ReplaceAll_empty (x @ D) D = x" by blast
  with np Cons.prems(1) show ?case by (subst ReplaceAll_empty.simps) simp
qed

lemma unbordered_only_at_end:
  assumes "borders D = []" and "\<not> Contains x D"
  shows "\<forall>p q. x @ D = p @ D @ q \<longrightarrow> q = []"
proof (intro allI impI, rule ccontr)
  fix p q assume eq: "x @ D = p @ D @ q" and q: "q \<noteq> []"
  from eq obtain us where "(x = p @ us \<and> us @ D = D @ q) \<or> (x @ us = p \<and> D = us @ D @ q)"
    by (auto simp: append_eq_append_conv2)
  then show False
  proof
    assume a: "x = p @ us \<and> us @ D = D @ q"
    then obtain vs where "(us = D @ vs \<and> vs @ D = q) \<or> (us @ vs = D \<and> D = vs @ q)"
      by (auto simp: append_eq_append_conv2)
    then show False
    proof
      assume "us = D @ vs \<and> vs @ D = q"
      with a have "x = p @ D @ vs" by simp
      then have "Contains x D" unfolding Contains_iff by blast
      with assms(2) show False by simp
    next
      assume b: "us @ vs = D \<and> D = vs @ q"
      then have b1: "us @ vs = D" and b2: "D = vs @ q" by simp_all
      from a have a1: "x = p @ us" by simp
      have "vs \<noteq> []"
      proof
        assume "vs = []"
        with b1 have "us = D" by simp
        with a1 have "x = p @ D @ []" by simp
        then have "Contains x D" unfolding Contains_iff by blast
        with assms(2) show False by simp
      qed
      moreover have "vs \<noteq> D"
      proof
        assume "vs = D"
        with b2 have "D = D @ q" by simp
        with q show False by simp
      qed
      moreover from b2 have "prefix vs D" by (rule prefixI)
      moreover from b1 have "suffix vs D" by (rule suffixI [OF sym])
      ultimately have "vs \<in> set (borders D)" by (simp add: borders_def in_set_prefixes)
      with assms(1) show False by simp
    qed
  next
    assume "x @ us = p \<and> D = us @ D @ q"
    then have "D = us @ D @ q" by simp
    then have "length D = length (us @ D @ q)" by (rule arg_cong)
    then have "length D = length us + length D + length q" by (simp only: length_append add.assoc)
    with q show False by simp
  qed
qed

lemma TrimSpace_id:
  assumes "s \<noteq> []" and "hd s = CHR ''{''" and "last s = CHR ''}''"
  shows "TrimSpace s = s"
proof -
  have h: "\<forall>w \<in> set white_space. hd w \<noteq> CHR ''{'' \<and> last w \<noteq> CHR ''}'' \<and> w \<noteq> []"
    by (simp add: white_space_def)
  have "\<not> prefix w s" if "w \<in> set white_space" for w
  proof
    assume "prefix w s"
    then obtain t where t: "s = w @ t" by (auto simp: prefix_def)
    from that h have w: "hd w \<noteq> CHR ''{''" "w \<noteq> []" by blast+
    from t w(2) have "hd s = hd w" by simp
    with w(1) assms(2) show False by simp
  qed
  then have l: "find (\<lambda>w. prefix w s) white_space = None" by (simp add: find_None_iff)
  have "\<not> suffix w s" if "w \<in> set white_space" for w
  proof
    assume "suffix w s"
    then obtain t where t: "s = t @ w" by (auto simp: suffix_def)
    from that h have w: "last w \<noteq> CHR ''}''" "w \<noteq> []" by blast+
    from t w(2) have "last s = last w" by simp
    with w(1) assms(3) show False by simp
  qed
  then have r: "find (\<lambda>w. suffix w s) white_space = None" by (simp add: find_None_iff)
  from l have "TrimLeftSpace s = s" by (subst TrimLeftSpace.simps) simp
  moreover from r have "TrimRightSpace s = s" by (subst TrimRightSpace.simps) simp
  ultimately show ?thesis by (simp add: TrimSpace_def)
qed

text \<open>
  Claim C1, amended. Let the delimiter end in \<open>-\<close> and have no border (as
  \<^verbatim>\<open><???DONE???---\<close>), and let the message serialize to bytes that do not contain the
  delimiter and that start with \<open>{\<close> and end with \<open>}\<close> (as \<^verbatim>\<open>json.Marshal\<close> writes a map).
  Then \<^verbatim>\<open>sendJSONMessage\<close> on an open connection whose write succeeds writes those bytes
  followed by the delimiter, and \<^verbatim>\<open>readResponse\<close> on the written bytes returns exactly the
  serialized message, so it parses to what the message parses to.
\<close>

theorem framing_round_trip:
  assumes "Marshal enc (JObject msg) = Some data"
    and "\<not> Contains data delimiter"
    and "delimiter \<noteq> []" and "last delimiter = CHR ''-''" and "borders delimiter = []"
    and "data \<noteq> []" and "hd data = CHR ''{''" and "last data = CHR ''}''"
    and "k \<notin> set (closed n)" and "write_ok e (writes n) (data @ delimiter)"
  shows "sendJSONMessage enc e k msg delimiter n =
           (None, n\<lparr>writes := Suc (writes n),
                     trace := trace n @ [EvWrite k (data @ delimiter) True]\<rparr>) \<and>
         readResponse_bytes delimiter (data @ delimiter) = (data, None)"
proof
  from assms(1,9,10)
  show "sendJSONMessage enc e k msg delimiter n =
           (None, n\<lparr>writes := Suc (writes n),
                     trace := trace n @ [EvWrite k (data @ delimiter) True]\<rparr>)"
    by (simp add: sendJSONMessage_def Write_def)
next
  let ?s = "data @ delimiter"
  from assms(5,2) have o: "\<forall>p q. ?s = p @ delimiter @ q \<longrightarrow> q = []"
    by (rule unbordered_only_at_end)
  from assms(3,4) have "?s \<noteq> []" "last ?s = CHR ''-''" by simp_all
  with o have "fst (readLoop delimiter [] ?s) = [] @ ?s" by (intro readLoop_whole)
  moreover from assms(3) o have "ReplaceAll_empty ?s delimiter = data"
    by (rule ReplaceAll_empty_suffix)
  moreover from assms(6,7,8) have "TrimSpace data = data"
    by (rule TrimSpace_id)
  ultimately show "readResponse_bytes delimiter ?s = (data, None)"
    by (auto simp: readResponse_bytes_def split: prod.splits)
qed

theorem framing_round_trip_witness:
  "Marshal example_enc (JObject [(''type'', JString ''get_cube_list'')])
     = Some ''{\"type\":\"get_cube_list\"}'' \<and>
   \<not> Contains ''{\"type\":\"get_cube_list\"}'' ''<???DONE???---'' \<and>
   last ''<???DONE???---'' = CHR ''-'' \<and> borders ''<???DONE???---'' = [] \<and>
   0 \<notin> set (closed net0) \<and>
   write_ok (example_env None []) (writes net0) (''{\"type\":\"get_cube_list\"}'' @ ''<???DONE???---'') \<and>
   sendJSONMessage example_enc (example_env None []) 0 [(''type'', JString ''get_cube_list'')]
       ''<???DONE???---'' net0 =
     (None, net0\<lparr>writes := Suc (writes net0),
                   trace := trace net0 @
                     [EvWrite 0 (''{\"type\":\"get_cube_list\"}'' @ ''<???DONE???---'') True]\<rparr>) \<and>
   readResponse_bytes ''<???DONE???---'' (''{\"type\":\"get_cube_list\"}'' @ ''<???DONE???---'')
     = (''{\"type\":\"get_cube_list\"}'', None)"
proof -
  have m: "Marshal example_enc (JObject [(''type'', JString ''get_cube_list'')])
     = Some ''{\"type\":\"get_cube_list\"}''"
    by (simp add: Marshal_def example_enc_def)
  have c: "\<not> Contains ''{\"type\":\"get_cube_list\"}'' ''<???DONE???---''" by simp
  have b: "borders ''<???DONE???---'' = []" by (simp add: borders_def suffix_def)
  have k: "0 \<notin> set (closed net0)" by (simp add: net0_def)
  have w: "write_ok (example_env None []) (writes net0)
             (''{\"type\":\"get_cube_list\"}'' @ ''<???DONE???---'')"
    by (simp add: example_env_def)
  from framing_round_trip [OF m c _ _ b _ _ _ k w] m c b k w show ?thesis by simp
qed

text \<open>
  The round trip as claimed for every delimiter fails: with the delimiter \<^verbatim>\<open><END>\<close> the
  request \<^verbatim>\<open>{"type":"get_cube_list"}\<close> does not contain the delimiter, is written followed
  by it, and \<^verbatim>\<open>readResponse\<close> returns the empty string for the written bytes, since no
  \<open>-\<close> ever ends a line.
\<close>

theorem framing_round_trip_counterexample:
  "Marshal example_enc (JObject [(''type'', JString ''get_cube_list'')])
     = Some ''{\"type\":\"get_cube_list\"}'' \<and>
   \<not> Contains ''{\"type\":\"get_cube_list\"}'' ''<END>'' \<and>
   sendJSONMessage example_enc (example_env None []) 0 [(''type'', JString ''get_cube_list'')]
       ''<END>'' net0 =
     (None, net0\<lparr>writes := 1, trace := [EvWrite 0 ''{\"type\":\"get_cube_list\"}<END>'' True]\<rparr>) \<and>
   readResponse_bytes ''<END>'' ''{\"type\":\"get_cube_list\"}<END>'' = ([], None)"
  by (simp add: Marshal_def example_enc_def sendJSONMessage_def Write_def example_env_def net0_def
        readResponse_bytes_def readLoop.simps TrimSpace_eval ReplaceAll_empty.simps)

text \<open>
  Why the amended claim asks for a delimiter without a border: the delimiter \<^verbatim>\<open>-1}-\<close> ends
  in \<open>-\<close> and has the border \<open>-\<close>. The message \<^verbatim>\<open>{"a":-1}\<close> does not contain it, yet an
  occurrence of the delimiter starts inside the message once the delimiter is appended, and
  that occurrence is the one that is cut out.
\<close>

lemma framing_round_trip_border_example:
  "\<not> Contains ''{\"a\":-1}'' ''-1}-'' \<and> last ''-1}-'' = CHR ''-'' \<and> borders ''-1}-'' = [''-''] \<and>
   readResponse_bytes ''-1}-'' (''{\"a\":-1}'' @ ''-1}-'') = (''{\"a\":1}-'', None)"
  by (simp add: borders_def suffix_def readResponse_bytes_def readLoop.simps TrimSpace_eval
        ReplaceAll_empty.simps)

section \<open>Properties of the cube\<close>

lemma Dial_result:
  "Dial e n = (r, n') \<Longrightarrow>
     r = (if dial_ok e (dials n) then Some (dials n) else None) \<and>
     n' = n\<lparr>dials := Suc (dials n), trace := trace n @ [EvDial r]\<rparr>"
  by (auto simp: Dial_def Let_def)

lemma Write_result:
  "Write e k d n = (r, n') \<Longrightarrow>
     (r = None \<longleftrightarrow> k \<notin> set (closed n) \<and> write_ok e (writes n) d) \<and>
     n' = n\<lparr>writes := Suc (writes n), trace := trace n @ [EvWrite k d (r = None)]\<rparr>"
  by (auto simp: Write_def Let_def split: if_splits)

lemma readResponse_result:
  "readResponse e k dl n = (r, n') \<Longrightarrow>
     snd r = None \<and>
     r = readResponse_bytes dl (if k \<in> set (closed n) then [] else inbound e (reads n)) \<and>
     n' = n\<lparr>reads := Suc (reads n),
             trace := trace n @ [EvRead k (if k \<in> set (closed n) then [] else inbound e (reads n))]\<rparr>"
  by (auto simp: readResponse_def readResponse_bytes_def Let_def split: prod.splits)

lemma sendJSONMessage_result:
  "sendJSONMessage enc e k msg dl n = (r, n') \<Longrightarrow>
     (\<not> supported (JObject msg) \<and> r = Some UnsupportedValue \<and> n' = n) \<or>
     (supported (JObject msg) \<and> Write e k (enc (JObject msg) @ dl) n = (r, n'))"
  by (auto simp: sendJSONMessage_def Marshal_def split: if_splits)

text \<open>
  Claim C6. When \<^verbatim>\<open>Spawn\<close> returns \<^verbatim>\<open>nil\<close>, the cube is the one it was but for two fields:
  its name is the old name followed by \<^verbatim>\<open>_BASE\<close>, and its connection is the one this call
  dialed. The call dialed exactly once, the dial succeeded, and the connection is open.
\<close>

theorem Spawn_renames:
  assumes "fst (Spawn enc e c n) = Ok"
  shows "fst (snd (Spawn enc e c n)) = c\<lparr>conn := Some (dials n), Name := Name c @ ''_BASE''\<rparr> \<and>
         dial_ok e (dials n) \<and>
         dials (snd (snd (Spawn enc e c n))) = Suc (dials n) \<and>
         dials n \<notin> set (closed (snd (snd (Spawn enc e c n))))"
proof -
  obtain r0 n1 where dl: "Dial e n = (r0, n1)" by (cases "Dial e n")
  show ?thesis
  proof (cases r0)
    case None
    with dl have "fst (Spawn enc e c n) = Err ConnectFailed" by (simp add: Spawn_def)
    with assms show ?thesis by simp
  next
    case k: (Some k)
    obtain r1 n2 where w1: "Write e k (cube.AuthPass c @ cube.Delimiter c) n1 = (r1, n2)"
      by (cases "Write e k (cube.AuthPass c @ cube.Delimiter c) n1")
    show ?thesis
    proof (cases r1)
      case (Some err)
      with dl k w1 have "fst (Spawn enc e c n) = Err AuthFailed" by (simp add: Spawn_def)
      with assms show ?thesis by simp
    next
      case r1: None
      obtain rsp n3 where rr: "readResponse e k (cube.Delimiter c) n2 = (rsp, n3)"
        by (cases "readResponse e k (cube.Delimiter c) n2")
      let ?cmd = "[(''type'', JString ''spawn_cube''), (''cube_name'', JString (Name c)),
                   (''position'', JArray (map JNumber (Position c))),
                   (''rotation'', JArray [JNumber (Fin 0), JNumber (Fin 0), JNumber (Fin 0)]),
                   (''is_base'', JBool True)]"
      obtain r2 n4 where sj: "sendJSONMessage enc e k ?cmd (cube.Delimiter c) n3 = (r2, n4)"
        by (cases "sendJSONMessage enc e k ?cmd (cube.Delimiter c) n3")
      show ?thesis
      proof (cases r2)
        case (Some err)
        with dl k w1 r1 rr sj have "fst (Spawn enc e c n) = Err SpawnFailed"
          by (simp add: Spawn_def Let_def)
        with assms show ?thesis by simp
      next
        case r2: None
        from dl k w1 r1 rr sj r2
        have sp: "Spawn enc e c n =
            (if length (Position c) < 3
             then (Panic, c\<lparr>conn := Some k, Name := Name c @ ''_BASE''\<rparr>, n4)
             else (Ok, c\<lparr>conn := Some k, Name := Name c @ ''_BASE''\<rparr>,
                   n4\<lparr>trace := trace n4 @ [EvSpawned (Name c @ ''_BASE'') (take 3 (Position c))]\<rparr>))"
          by (simp add: Spawn_def Let_def)
        with assms have len: "\<not> length (Position c) < 3" by (auto split: if_splits)
        from Dial_result[OF dl] k have kd: "k = dials n" "dial_ok e (dials n)"
          and n1: "dials n1 = Suc (dials n)" "closed n1 = closed n"
          by (auto split: if_splits)
        from Write_result[OF w1] r1 have n2: "dials n2 = dials n1" "closed n2 = closed n1"
          "k \<notin> set (closed n1)" by auto
        from readResponse_result[OF rr] have n3: "dials n3 = dials n2" "closed n3 = closed n2"
          by auto
        from sendJSONMessage_result[OF sj] r2
        have "Write e k (enc (JObject ?cmd) @ cube.Delimiter c) n3 = (None, n4)" by auto
        from Write_result[OF this] have n4: "dials n4 = dials n3" "closed n4 = closed n3" by auto
        from sp len kd n1 n2 n3 n4 show ?thesis by simp
      qed
    qed
  qed
qed

lemmas eval_defs = Spawn_def Despawn_def PulseWithModel_def RefreshPosition_def Dial_def Write_def
  Close_def readResponse_def readResponse_bytes_def readLoop.simps ReplaceAll_empty.simps
  TrimSpace_eval sendJSONMessage_def Marshal_def index_def assign_position_def
  clamp_component_def example_env_def example_server_def example_cube_def net0_def
  example_enc_def example_Unmarshal_def Let_def

theorem Spawn_renames_witness:
  "fst (Spawn example_enc example_server example_cube net0) = Ok \<and>
   Name (fst (snd (Spawn example_enc example_server example_cube net0))) = ''cube_hello_0_BASE'' \<and>
   conn (fst (snd (Spawn example_enc example_server example_cube net0))) = Some 0 \<and>
   dials (snd (snd (Spawn example_enc example_server example_cube net0))) = 1 \<and>
   0 \<notin> set (closed (snd (snd (Spawn example_enc example_server example_cube net0))))"
proof -
  have h: "fst (Spawn example_enc example_server example_cube net0) = Ok"
    by (simp add: eval_defs)
  from Spawn_renames [OF h] h show ?thesis
    by (simp add: example_cube_def net0_def)
qed

text \<open>
  Claim C4 at a failing input: the example cube has no connection; the dial and the write of
  the password succeed and the write of the \<^verbatim>\<open>spawn_cube\<close> command fails. \<^verbatim>\<open>Spawn\<close> returns
  its spawn error and closes the connection, and the cube is left holding that closed
  connection in its \<open>conn\<close> field, which was assigned before the command was sent.
\<close>

theorem Spawn_write_failure_keeps_conn:
  "fst (Spawn example_enc (example_env (Some 1) []) example_cube net0) = Err SpawnFailed \<and>
   conn example_cube = None \<and>
   conn (fst (snd (Spawn example_enc (example_env (Some 1) []) example_cube net0))) = Some 0 \<and>
   closed (snd (snd (Spawn example_enc (example_env (Some 1) []) example_cube net0))) = [0]"
  by (simp add: eval_defs)





lemma clamp_in_range:
  "fle (cube.ClampMin c) (cube.ClampMax c) \<Longrightarrow> v \<noteq> NaN \<Longrightarrow>
     fle (cube.ClampMin c) (clamp_component c v) \<and> fle (clamp_component c v) (cube.ClampMax c)"
  by (cases v; cases "cube.ClampMin c"; cases "cube.ClampMax c")
     (auto simp: clamp_component_def fle_def Let_def)

lemma clamp_unchanged:
  "fle (cube.ClampMin c) v \<Longrightarrow> fle v (cube.ClampMax c) \<Longrightarrow> clamp_component c v = v"
  by (cases v; cases "cube.ClampMin c"; cases "cube.ClampMax c")
     (auto simp: clamp_component_def fle_def Let_def)

lemma clamp_NaN: "clamp_component c NaN = NaN"
  by (cases "cube.ClampMin c"; cases "cube.ClampMax c") (auto simp: clamp_component_def Let_def)

lemma Write_trace:
  "\<exists>ok. trace (snd (Write e k d n)) = trace n @ [EvWrite k d ok]"
  by (simp add: Write_def Let_def)

lemma readResponse_trace: "prefix (trace n) (trace (snd (readResponse e k dl n)))"
  by (simp add: readResponse_def Let_def)

lemma sendJSONMessage_trace: "prefix (trace n) (trace (snd (sendJSONMessage enc e k msg dl n)))"
  by (simp add: sendJSONMessage_def Write_def Let_def split: option.splits)

lemma RefreshPosition_trace:
  "prefix (trace n) (trace (snd (snd (RefreshPosition enc U e c n))))"
proof (cases "conn c")
  case None
  then show ?thesis by (simp add: RefreshPosition_def)
next
  case (Some k)
  let ?msg = "[(''type'', JString ''get_cube_state'')]"
  obtain r1 n1 where sj: "sendJSONMessage enc e k ?msg (cube.Delimiter c) n = (r1, n1)"
    by (cases "sendJSONMessage enc e k ?msg (cube.Delimiter c) n")
  obtain rsp n2 where rr: "readResponse e k (cube.Delimiter c) n1 = (rsp, n2)"
    by (cases "readResponse e k (cube.Delimiter c) n1")
  from sendJSONMessage_trace[of n enc e k ?msg "cube.Delimiter c"] sj
  have p1: "prefix (trace n) (trace n1)" by simp
  from readResponse_trace[of n1 e k "cube.Delimiter c"] rr
  have "prefix (trace n1) (trace n2)" by simp
  with p1 have p2: "prefix (trace n) (trace n2)" by (rule prefix_order.trans)
  have "snd (snd (RefreshPosition enc U e c n)) = n1 \<or> snd (snd (RefreshPosition enc U e c n)) = n2"
    using Some sj rr
    by (simp add: RefreshPosition_def split: option.splits prod.splits json.splits bool.splits)
  with p1 p2 show ?thesis by auto
qed

text \<open>
  Claim C3. Let the cube hold a connection and a position of at least three components, let
  its bounds be a range (\<open>ClampMin \<le> ClampMax\<close>), and let the decision function return at
  least three components. The force is the first three components, each clamped. A
  component that lies in the range already is unchanged. If all three are finite,
  \<^verbatim>\<open>PulseWithModel\<close> writes the \<^verbatim>\<open>apply_force\<close> command with this force to the connection
  first, and each component of it lies in the range; otherwise (a NaN or an infinity, which
  \<^verbatim>\<open>json.Marshal\<close> rejects) it returns its send error and nothing is written.
\<close>

theorem clamp_correctness:
  assumes "conn c = Some k" and "3 \<le> length (Position c)"
    and "output = Model c [Position c ! 0, Position c ! 1, Position c ! 2]"
    and "3 \<le> length output"
    and "fle (cube.ClampMin c) (cube.ClampMax c)"
    and "force = map (clamp_component c) (take 3 output)"
  shows "length force = 3 \<and>
     (\<forall>i<3. fle (cube.ClampMin c) (output ! i) \<and> fle (output ! i) (cube.ClampMax c)
              \<longrightarrow> force ! i = output ! i) \<and>
     (if list_all finite_float force
      then (\<forall>i<3. fle (cube.ClampMin c) (force ! i) \<and> fle (force ! i) (cube.ClampMax c)) \<and>
           (\<exists>ok rest. trace (snd (snd (PulseWithModel enc Unmarshal e c n))) =
              trace n @
              EvWrite k (enc (JObject [(''type'', JString ''apply_force''),
                                       (''force'', JArray (map JNumber force))])
                         @ cube.Delimiter c) ok # rest)
      else PulseWithModel enc Unmarshal e c n = (Err ApplyForceFailed, c, n))"
proof (intro conjI)
  from assms(4,6) show len: "length force = 3" by simp
  have nth: "force ! i = clamp_component c (output ! i)" if "i < 3" for i
    using that assms(4,6) by simp
  show "\<forall>i<3. fle (cube.ClampMin c) (output ! i) \<and> fle (output ! i) (cube.ClampMax c)
              \<longrightarrow> force ! i = output ! i"
    by (simp add: nth clamp_unchanged)
  have f3: "force = map (\<lambda>i. clamp_component c (output ! i)) [0, 1, 2]"
  proof (rule nth_equalityI)
    show "length force = length (map (\<lambda>i. clamp_component c (output ! i)) [0, 1, 2])"
      using len by simp
    fix i assume "i < length force"
    with len have "i < 3" by simp
    then have "i = 0 \<or> i = 1 \<or> i = 2" by arith
    then show "force ! i = map (\<lambda>i. clamp_component c (output ! i)) [0, 1, 2] ! i"
      using nth[of i] by auto
  qed
  let ?msg = "[(''type'', JString ''apply_force''), (''force'', JArray (map JNumber force))]"
  have sup: "supported (JObject ?msg) = list_all finite_float force"
    by (simp add: list_all_iff)
  from assms(1,2,3,4) f3
  have pw: "PulseWithModel enc Unmarshal e c n =
      (case sendJSONMessage enc e k ?msg (cube.Delimiter c) n of
         (Some err, n1) \<Rightarrow> (Err ApplyForceFailed, c, n1)
       | (None, n1) \<Rightarrow> RefreshPosition enc Unmarshal e c n1)"
    by (simp add: PulseWithModel_def Let_def)
  show "if list_all finite_float force
      then (\<forall>i<3. fle (cube.ClampMin c) (force ! i) \<and> fle (force ! i) (cube.ClampMax c)) \<and>
           (\<exists>ok rest. trace (snd (snd (PulseWithModel enc Unmarshal e c n))) =
              trace n @ EvWrite k (enc (JObject ?msg) @ cube.Delimiter c) ok # rest)
      else PulseWithModel enc Unmarshal e c n = (Err ApplyForceFailed, c, n)"
  proof (cases "list_all finite_float force")
    case False
    with sup have "sendJSONMessage enc e k ?msg (cube.Delimiter c) n = (Some UnsupportedValue, n)"
      by (simp add: sendJSONMessage_def Marshal_def del: supported.simps)
    with pw False show ?thesis by simp
  next
    case True
    have rng: "\<forall>i<3. fle (cube.ClampMin c) (force ! i) \<and> fle (force ! i) (cube.ClampMax c)"
    proof (intro allI impI)
      fix i :: nat assume i: "i < 3"
      with len True have "finite_float (force ! i)" by (simp add: list_all_length)
      with nth[OF i] have "output ! i \<noteq> NaN" using clamp_NaN[of c] by auto
      with assms(5) nth[OF i] show "fle (cube.ClampMin c) (force ! i) \<and> fle (force ! i) (cube.ClampMax c)"
        by (simp add: clamp_in_range)
    qed
    let ?d = "enc (JObject ?msg) @ cube.Delimiter c"
    from True sup have sj: "sendJSONMessage enc e k ?msg (cube.Delimiter c) n = Write e k ?d n"
      by (simp add: sendJSONMessage_def Marshal_def del: supported.simps)
    obtain r1 n1 where w: "Write e k ?d n = (r1, n1)" by (cases "Write e k ?d n")
    from Write_trace[of e k ?d n] w obtain ok where t1: "trace n1 = trace n @ [EvWrite k ?d ok]"
      by auto
    have "\<exists>rest. trace (snd (snd (PulseWithModel enc Unmarshal e c n))) = trace n1 @ rest"
    proof (cases r1)
      case (Some err)
      with pw sj w show ?thesis by simp
    next
      case None
      with pw sj w have "PulseWithModel enc Unmarshal e c n = RefreshPosition enc Unmarshal e c n1"
        by simp
      with RefreshPosition_trace[of n1 enc Unmarshal e c] show ?thesis
        by (auto simp: prefix_def)
    qed
    with t1 have "\<exists>ok rest. trace (snd (snd (PulseWithModel enc Unmarshal e c n))) =
              trace n @ EvWrite k ?d ok # rest" by auto
    with True rng show ?thesis by simp
  qed
qed

lemma connected_cube_conn: "conn connected_cube = Some 0" by (simp add: connected_cube_def)

lemma connected_cube_position: "3 \<le> length (Position connected_cube)" by (simp add: connected_cube_def example_cube_def)

lemma connected_cube_output: "[Fin 25, Fin (- 30), Fin 5, Fin 7] =
      Model connected_cube [Position connected_cube ! 0, Position connected_cube ! 1,
                            Position connected_cube ! 2]" by (simp add: connected_cube_def example_cube_def)

lemma connected_cube_bounds: "fle (cube.ClampMin connected_cube) (cube.ClampMax connected_cube)"
    by (simp add: connected_cube_def example_cube_def fle_def)

lemma connected_cube_force: "[Fin 20, Fin (- 20), Fin 5] =
      map (clamp_component connected_cube) (take 3 [Fin 25, Fin (- 30), Fin 5, Fin 7])"
    by (simp add: connected_cube_def example_cube_def clamp_component_def Let_def)

theorem clamp_correctness_witness:
  "conn connected_cube = Some 0 \<and> 3 \<le> length (Position connected_cube) \<and>
   Model connected_cube [Position connected_cube ! 0, Position connected_cube ! 1,
                         Position connected_cube ! 2] = [Fin 25, Fin (- 30), Fin 5, Fin 7] \<and>
   fle (cube.ClampMin connected_cube) (cube.ClampMax connected_cube) \<and>
   map (clamp_component connected_cube) (take 3 [Fin 25, Fin (- 30), Fin 5, Fin 7])
     = [Fin 20, Fin (- 20), Fin 5] \<and>
   list_all finite_float [Fin 20, Fin (- 20), Fin 5] \<and>
   (\<exists>ok rest. trace (snd (snd (PulseWithModel example_enc example_Unmarshal example_server
                                  connected_cube net0))) =
      trace net0 @ EvWrite 0 (''{}'' @ ''<???DONE???---'') ok # rest)"
proof -
  have d: "3 \<le> length [Fin 25, Fin (- 30), Fin 5, Fin 7]" by simp
  have fin: "list_all finite_float [Fin 20, Fin (- 20), Fin 5]" by simp
  have dl: "cube.Delimiter connected_cube = ''<???DONE???---''"
    by (simp add: connected_cube_def example_cube_def)
  have en: "example_enc (JObject [(''type'', JString ''apply_force''),
              (''force'', JArray (map JNumber [Fin 20, Fin (- 20), Fin 5]))]) = ''{}''"
    by (simp add: example_enc_def)
  from clamp_correctness [OF connected_cube_conn connected_cube_position connected_cube_output d
      connected_cube_bounds connected_cube_force, of example_enc example_Unmarshal example_server net0]
  have "\<exists>ok rest. trace (snd (snd (PulseWithModel example_enc example_Unmarshal example_server
                                  connected_cube net0))) =
      trace net0 @ EvWrite 0 (''{}'' @ ''<???DONE???---'') ok # rest"
    unfolding dl en using fin by (simp only: if_True)
  with connected_cube_conn connected_cube_position connected_cube_output [symmetric]
    connected_cube_bounds connected_cube_force [symmetric] fin
  show ?thesis by blast
qed

lemma length_assign_at: "length (assign_at pos i Q) = length Q"
  by (cases "pos ! i") (simp_all add: assign_at_def)

lemma nth_assign_at:
  "j < length Q \<Longrightarrow>
     assign_at pos i Q ! j =
       (if j = i then number_or (pos ! i) (Q ! j) else Q ! j)"
  by (cases "pos ! i") (auto simp: assign_at_def number_or_def)

lemma assign_position_step:
  "i < length Q \<Longrightarrow> assign_position pos (False, Q) i = (False, assign_at pos i Q)"
  by (cases "pos ! i") (simp_all add: assign_position_def assign_at_def)

lemma assign_position_loop:
  assumes "3 \<le> length P"
  shows "foldl (assign_position pos) (False, P) [0, 1, 2] = (False, refreshed pos P)"
proof -
  let ?Q = "assign_at pos 2 (assign_at pos 1 (assign_at pos 0 P))"
  from assms have l0: "0 < length P" and l1: "1 < length (assign_at pos 0 P)"
    and l2: "2 < length (assign_at pos 1 (assign_at pos 0 P))"
    by (auto simp: length_assign_at)
  have "foldl (assign_position pos) (False, P) [0, 1, 2] = (False, ?Q)"
    by (simp only: foldl.simps assign_position_step [OF l0] assign_position_step [OF l1]
          assign_position_step [OF l2])
  moreover have "?Q = refreshed pos P"
  proof (rule nth_equalityI)
    show "length ?Q = length (refreshed pos P)"
      by (simp add: length_assign_at refreshed_def)
    fix j assume "j < length ?Q"
    then have j: "j < length P" by (simp add: length_assign_at)
    have "j = 0 \<or> j = 1 \<or> j = 2 \<or> 3 \<le> j" by arith
    with j show "?Q ! j = refreshed pos P ! j"
      by (auto simp: nth_assign_at length_assign_at refreshed_def)
  qed
  ultimately show ?thesis by simp
qed

text \<open>
  Claim C10. Let the cube hold a connection and a position of at least three components,
  let the \<^verbatim>\<open>get_cube_state\<close> request be sent, and let the response parse to an object whose
  \<open>position\<close> is an array of exactly three elements, numbers or not. Then
  \<^verbatim>\<open>RefreshPosition\<close> returns \<^verbatim>\<open>nil\<close>, and it has changed nothing but the position: each of
  the first three components is the response's element if that is a number, and is
  unchanged otherwise.
\<close>

theorem RefreshPosition_lenient:
  assumes "conn c = Some k"
    and "sendJSONMessage enc e k [(''type'', JString ''get_cube_state'')] (cube.Delimiter c) n
           = (None, n1)"
    and "readResponse e k (cube.Delimiter c) n1 = ((raw, err), n2)"
    and "Unmarshal raw = Some state"
    and "index state ''position'' = JArray pos" and "length pos = 3"
    and "3 \<le> length (Position c)"
  shows "RefreshPosition enc Unmarshal e c n = (Ok, c\<lparr>Position := refreshed pos (Position c)\<rparr>, n2) \<and>
         length (refreshed pos (Position c)) = length (Position c) \<and>
         (\<forall>i < length (Position c).
            refreshed pos (Position c) ! i =
              (if i < 3 then number_or (pos ! i) (Position c ! i) else Position c ! i))"
proof (intro conjI)
  from readResponse_result[OF assms(3)] have "err = None" by simp
  with assms assign_position_loop[OF assms(7), of pos]
  show "RefreshPosition enc Unmarshal e c n = (Ok, c\<lparr>Position := refreshed pos (Position c)\<rparr>, n2)"
    by (simp add: RefreshPosition_def)
  show "length (refreshed pos (Position c)) = length (Position c)" by (simp add: refreshed_def)
  show "\<forall>i < length (Position c).
            refreshed pos (Position c) ! i =
              (if i < 3 then number_or (pos ! i) (Position c ! i) else Position c ! i)"
    by (simp add: refreshed_def)
qed

theorem RefreshPosition_lenient_witness:
  "conn connected_cube = Some 0 \<and>
   fst (sendJSONMessage example_enc example_server 0 [(''type'', JString ''get_cube_state'')]
          (cube.Delimiter connected_cube) net0) = None \<and>
   example_Unmarshal ''{\"position\":[1,\"x\",3]}''
     = Some [(''position'', JArray [JNumber (Fin 1), JString ''x'', JNumber (Fin 3)])] \<and>
   Position connected_cube = [Fin 0, Fin 120, Fin 10] \<and>
   fst (RefreshPosition example_enc example_Unmarshal example_server connected_cube net0) = Ok \<and>
   Position (fst (snd (RefreshPosition example_enc example_Unmarshal example_server
                         connected_cube net0))) = [Fin 1, Fin 120, Fin 3]"
proof -
  let ?dl = "cube.Delimiter connected_cube"
  let ?state = "[(''position'', JArray [JNumber (Fin 1), JString ''x'', JNumber (Fin 3)])]"
  let ?pos = "[JNumber (Fin 1), JString ''x'', JNumber (Fin 3)]"
  define n1 where
    "n1 = snd (sendJSONMessage example_enc example_server 0 [(''type'', JString ''get_cube_state'')]
                 ?dl net0)"
  define n2 where "n2 = snd (readResponse example_server 0 ?dl n1)"
  have a: "conn connected_cube = Some 0" by (simp add: connected_cube_def)
  have b: "sendJSONMessage example_enc example_server 0 [(''type'', JString ''get_cube_state'')]
             ?dl net0 = (None, n1)"
    by (simp add: n1_def eval_defs)
  have c: "readResponse example_server 0 ?dl n1 = ((''{\"position\":[1,\"x\",3]}'', None), n2)"
    by (simp add: n2_def n1_def connected_cube_def eval_defs)
  have d: "example_Unmarshal ''{\"position\":[1,\"x\",3]}'' = Some ?state"
    by (simp add: example_Unmarshal_def)
  have e: "index ?state ''position'' = JArray ?pos" by (simp add: index_def)
  have f: "length ?pos = 3" by simp
  have p: "Position connected_cube = [Fin 0, Fin 120, Fin 10]"
    by (simp add: connected_cube_def example_cube_def)
  then have g: "3 \<le> length (Position connected_cube)" by simp
  have r: "refreshed ?pos [Fin 0, Fin 120, Fin 10] = [Fin 1, Fin 120, Fin 3]"
    by (simp add: refreshed_def number_or_def upt_rec)
  from RefreshPosition_lenient [where Unmarshal = example_Unmarshal, OF a b c d e f g] a b d p r
  show ?thesis by simp
qed

section \<open>Properties of the construct\<close>

lemma passes_append: "passes (xs @ ys) = passes xs @ passes ys"
  by (induction xs rule: passes.induct) simp_all

lemma sent_append: "sent (xs @ ys) = sent xs @ sent ys"
  by (induction xs rule: sent.induct) simp_all

lemma count_reads_append: "count_reads (xs @ ys) = count_reads xs + count_reads ys"
  by (induction xs rule: count_reads.induct) simp_all

lemma passes_pass_events: "list_all pass_event evs \<Longrightarrow> passes evs = []"
  by (induction evs rule: passes.induct) simp_all

lemma cleared_not_pass_event: "list_all pass_event evs \<Longrightarrow> EvPrint NukeAllCleared \<notin> set evs"
  by (auto simp: list_all_iff)

lemma adds_refl: "adds n [] n"
  by (simp add: adds_def)

lemma adds_trans: "adds n xs n1 \<Longrightarrow> adds n1 ys n2 \<Longrightarrow> adds n (xs @ ys) n2"
  by (simp add: adds_def count_reads_append)

lemma print_adds: "adds n [EvPrint m] (print m n)"
  by (simp add: adds_def print_def)

lemma Close_trace: "trace (Close k n) = trace n @ [EvClose k]"
  by (simp add: Close_def)

lemma send_adds:
  assumes "sendJSONMessage enc e k msg dl n = (r, n')" and "supported (JObject msg)"
  shows "adds n [EvWrite k (enc (JObject msg) @ dl) (r = None)] n'"
proof -
  from sendJSONMessage_result[OF assms(1)] assms(2)
  have "Write e k (enc (JObject msg) @ dl) n = (r, n')" by simp
  from Write_result[OF this] show ?thesis by (simp add: adds_def)
qed

lemma read_adds:
  assumes "readResponse e k dl n = (rsp, n')"
  shows "adds n [EvRead k (if k \<in> set (closed n) then [] else inbound e (reads n))] n'"
  using readResponse_result[OF assms] by (simp add: adds_def)

lemma despawn_each_adds:
  "\<exists>evs. adds n evs (despawn_each enc e dl k cubes n) \<and> list_all pass_event evs \<and>
         count_reads evs = 0 \<and> sent evs = map (despawn_bytes enc dl) cubes"
proof (induction cubes arbitrary: n)
  case Nil
  have "adds n [] (despawn_each enc e dl k [] n)" by (simp add: adds_refl)
  then show ?case by force
next
  case (Cons cube cubes)
  let ?msg = "[(''type'', JString ''despawn_cube''), (''cube_name'', JString cube)]"
  obtain r n1 where sj: "sendJSONMessage enc e k ?msg dl n = (r, n1)"
    by (cases "sendJSONMessage enc e k ?msg dl n")
  let ?w = "EvWrite k (despawn_bytes enc dl cube) (r = None)"
  from send_adds[OF sj] have a1: "adds n [?w] n1" by (simp add: despawn_bytes_def)
  show ?case
  proof (cases r)
    case None
    with sj have d: "despawn_each enc e dl k (cube # cubes) n = despawn_each enc e dl k cubes n1"
      by simp
    from Cons.IH[of n1] obtain evs where e: "adds n1 evs (despawn_each enc e dl k cubes n1)"
      "list_all pass_event evs" "count_reads evs = 0" "sent evs = map (despawn_bytes enc dl) cubes"
      by blast
    from adds_trans[OF a1 e(1)] d
    have "adds n ([?w] @ evs) (despawn_each enc e dl k (cube # cubes) n)" by simp
    moreover have "list_all pass_event ([?w] @ evs)" using e(2) by simp
    moreover have "count_reads ([?w] @ evs) = 0" using e(3) by simp
    moreover have "sent ([?w] @ evs) = map (despawn_bytes enc dl) (cube # cubes)"
      using e(4) by simp
    ultimately show ?thesis by blast
  next
    case (Some err)
    let ?n2 = "print (NukeFailedDespawn cube) n1"
    let ?p = "EvPrint (NukeFailedDespawn cube)"
    from Some sj have d: "despawn_each enc e dl k (cube # cubes) n
        = despawn_each enc e dl k cubes ?n2" by simp
    from Cons.IH[of ?n2] obtain evs where e: "adds ?n2 evs (despawn_each enc e dl k cubes ?n2)"
      "list_all pass_event evs" "count_reads evs = 0" "sent evs = map (despawn_bytes enc dl) cubes"
      by blast
    from adds_trans[OF adds_trans[OF a1 print_adds[of n1 "NukeFailedDespawn cube"]] e(1)] d
    have "adds n (([?w] @ [?p]) @ evs) (despawn_each enc e dl k (cube # cubes) n)" by simp
    moreover have "list_all pass_event (([?w] @ [?p]) @ evs)" using e(2) by simp
    moreover have "count_reads (([?w] @ [?p]) @ evs) = 0" using e(3) by simp
    moreover have "sent (([?w] @ [?p]) @ evs) = map (despawn_bytes enc dl) (cube # cubes)"
      using e(4) by simp
    ultimately show ?thesis by blast
  qed
qed

lemma loop_post_done: "loop_post attempt n True n"
proof -
  have "adds n [] n" "passes [] = [attempt..<0]" "(0::nat) \<le> Suc maxRetries"
    "count_reads [] \<le> Suc maxRetries - attempt" "EvPrint NukeAllCleared \<notin> set []"
    by (simp_all add: adds_refl)
  then show ?thesis unfolding loop_post_def by blast
qed

lemma loop_post_failed:
  assumes "adds n pre n1" and "list_all pass_event pre" and "count_reads pre \<le> 1"
    and "attempt \<le> maxRetries"
    and "m \<noteq> NukeAllCleared" and "\<forall>cnt a. m \<noteq> NukeNuked cnt a"
  shows "loop_post attempt n False (print m n1)"
proof -
  let ?evs = "pre @ [EvPrint m]"
  from assms(6) have pm: "passes [EvPrint m] = []" by (cases m) simp_all
  have "adds n ?evs (print m n1)" by (rule adds_trans [OF assms(1) print_adds])
  moreover have "passes ?evs = [attempt..<0]"
    using assms(2) pm by (simp add: passes_append passes_pass_events)
  moreover have "count_reads ?evs \<le> Suc maxRetries - attempt"
    using assms(3,4) by (simp add: count_reads_append)
  moreover have "EvPrint NukeAllCleared \<notin> set ?evs"
    using cleared_not_pass_event[OF assms(2)] assms(5) by auto
  ultimately show ?thesis unfolding loop_post_def by blast
qed

lemma loop_post_cleared:
  assumes "adds n pre n2" and "list_all pass_event pre" and "count_reads pre \<le> 1"
    and "attempt \<le> maxRetries"
  shows "loop_post attempt n True (print NukeAllCleared n2)"
proof -
  let ?evs = "pre @ [EvPrint NukeAllCleared]"
  have "adds n ?evs (print NukeAllCleared n2)" by (rule adds_trans [OF assms(1) print_adds])
  moreover have "passes ?evs = [attempt..<0]"
    using assms(2) by (simp add: passes_append passes_pass_events)
  moreover have "count_reads ?evs \<le> Suc maxRetries - attempt"
    using assms(3,4) by (simp add: count_reads_append)
  moreover have "last ?evs = EvPrint NukeAllCleared" by simp
  ultimately show ?thesis unfolding loop_post_def by blast
qed

lemma loop_post_pass:
  assumes "adds n pre n3" and "list_all pass_event pre" and "count_reads pre \<le> 1"
    and "attempt \<le> maxRetries"
    and "loop_post (Suc attempt) (print (NukeNuked cnt attempt) n3) b n'"
  shows "loop_post attempt n b n'"
proof -
  let ?n4 = "print (NukeNuked cnt attempt) n3"
  let ?p = "EvPrint (NukeNuked cnt attempt)"
  from assms(5) obtain evs' m where r: "adds ?n4 evs' n'" "m \<le> Suc maxRetries"
    "passes evs' = [Suc attempt..<m]" "count_reads evs' \<le> Suc maxRetries - Suc attempt"
    "EvPrint NukeAllCleared \<in> set evs' \<longrightarrow> b \<and> last evs' = EvPrint NukeAllCleared"
    unfolding loop_post_def by blast
  let ?all = "(pre @ [?p]) @ evs'"
  let ?m = "max m (Suc attempt)"
  have t: "adds n ?all n'" by (rule adds_trans [OF adds_trans [OF assms(1) print_adds] r(1)])
  have m: "?m \<le> Suc maxRetries" using r(2) assms(4) by simp
  have "passes ?all = attempt # [Suc attempt..<m]"
    using assms(2) r(3) by (simp add: passes_append passes_pass_events)
  also have "\<dots> = [attempt..<?m]"
  proof (cases "Suc attempt \<le> m")
    case True
    then have "?m = m" "attempt < m" by simp_all
    then show ?thesis by (simp add: upt_conv_Cons)
  next
    case False
    then have "?m = Suc attempt" "[Suc attempt..<m] = []" by simp_all
    then show ?thesis by simp
  qed
  finally have p: "passes ?all = [attempt..<?m]" .
  have c: "count_reads ?all \<le> Suc maxRetries - attempt"
    using assms(3,4) r(4) by (simp add: count_reads_append)
  have l: "EvPrint NukeAllCleared \<in> set ?all \<longrightarrow> b \<and> last ?all = EvPrint NukeAllCleared"
  proof
    assume "EvPrint NukeAllCleared \<in> set ?all"
    with cleared_not_pass_event[OF assms(2)] have in': "EvPrint NukeAllCleared \<in> set evs'"
      by auto
    then have "evs' \<noteq> []" by auto
    with in' r(5) show "b \<and> last ?all = EvPrint NukeAllCleared" by simp
  qed
  from t m p c l show ?thesis unfolding loop_post_def by blast
qed

lemma destroy_loop_post:
  "destroy_loop enc U e dl k attempt n = (b, n') \<Longrightarrow> loop_post attempt n b n'"
proof (induction "Suc maxRetries - attempt" arbitrary: attempt n b n')
  case 0
  then have "\<not> attempt \<le> maxRetries" by simp
  with "0.prems" have "b = True" "n' = n" by (simp_all add: destroy_loop.simps)
  then show ?case by (simp add: loop_post_done)
next
  case (Suc d)
  then have le: "attempt \<le> maxRetries" by simp
  let ?req = "[(''type'', JString ''get_cube_list'')]"
  obtain r1 n1 where sj: "sendJSONMessage enc e k ?req dl n = (r1, n1)"
    by (cases "sendJSONMessage enc e k ?req dl n")
  let ?w = "EvWrite k (enc (JObject ?req) @ dl) (r1 = None)"
  from send_adds[OF sj] have a1: "adds n [?w] n1" by simp
  show ?case
  proof (cases r1)
    case (Some err)
    with Suc.prems le sj have "b = False" "n' = print NukeFailedRequest n1"
      by (simp_all add: destroy_loop.simps)
    with loop_post_failed[OF a1 _ _ le, of NukeFailedRequest] show ?thesis by simp
  next
    case r1: None
    obtain raw err n2 where rr: "readResponse e k dl n1 = ((raw, err), n2)"
      by (cases "readResponse e k dl n1") auto
    let ?r = "EvRead k (if k \<in> set (closed n1) then [] else inbound e (reads n1))"
    from adds_trans[OF a1 read_adds[OF rr]] have a2: "adds n ([?w] @ [?r]) n2" .
    have q2: "list_all pass_event ([?w] @ [?r])" "count_reads ([?w] @ [?r]) \<le> 1" by simp_all
    show ?thesis
    proof (cases err)
      case (Some er)
      with Suc.prems le sj r1 rr have "b = False" "n' = print NukeFailedRead n2"
        by (simp_all add: destroy_loop.simps)
      with loop_post_failed[OF a2 q2 le, of NukeFailedRead] show ?thesis by simp
    next
      case err: None
      show ?thesis
      proof (cases "U raw")
        case None
        with Suc.prems le sj r1 rr err have "b = False" "n' = print NukeUnmarshalError n2"
          by (simp_all add: destroy_loop.simps)
        with loop_post_failed[OF a2 q2 le, of NukeUnmarshalError] show ?thesis by simp
      next
        case cd: (Some cubeData)
        let ?cubes = "toStringArray (index cubeData ''cubes'')"
        show ?thesis
        proof (cases "?cubes = []")
          case True
          with Suc.prems le sj r1 rr err cd have "b = True" "n' = print NukeAllCleared n2"
            by (simp_all add: destroy_loop.simps)
          with loop_post_cleared[OF a2 q2 le] show ?thesis by simp
        next
          case False
          let ?n3 = "despawn_each enc e dl k ?cubes n2"
          let ?n4 = "print (NukeNuked (length ?cubes) attempt) ?n3"
          from Suc.prems le sj r1 rr err cd False
          have rec: "destroy_loop enc U e dl k (Suc attempt) ?n4 = (b, n')"
            by (simp add: destroy_loop.simps Let_def)
          from Suc.hyps(2) have "d = Suc maxRetries - Suc attempt" by simp
          from Suc.hyps(1)[OF this rec] have post: "loop_post (Suc attempt) ?n4 b n'" .
          from despawn_each_adds[of n2 enc e dl k ?cubes] obtain evs where
            e: "adds n2 evs ?n3" "list_all pass_event evs" "count_reads evs = 0" by blast
          from adds_trans[OF a2 e(1)] have a3: "adds n (([?w] @ [?r]) @ evs) ?n3" .
          have q3: "list_all pass_event (([?w] @ [?r]) @ evs)"
            "count_reads (([?w] @ [?r]) @ evs) \<le> 1"
            using e(2,3) by (simp_all add: count_reads_append)
          from a3 q3 le post show ?thesis by (rule loop_post_pass)
        qed
      qed
    qed
  qed
qed

lemma destroy_loop_exhausts:
  assumes w: "\<forall>i. write_ok e i (list_request_bytes enc dl)"
    and r: "\<forall>j. lo \<le> j \<longrightarrow> (\<exists>cd. U (fst (readResponse_bytes dl (inbound e j))) = Some cd \<and>
                    toStringArray (index cd ''cubes'') \<noteq> [])"
  shows "lo \<le> reads n \<Longrightarrow> k \<notin> set (closed n) \<Longrightarrow>
     destroy_loop enc U e dl k attempt n = (b, n') \<Longrightarrow>
     b \<and> (\<exists>evs. adds n evs n' \<and> passes evs = [attempt..<Suc maxRetries] \<and>
                 EvPrint NukeAllCleared \<notin> set evs \<and>
                 sent evs = concat (map (pass_writes enc U dl e)
                                      [reads n..<reads n + (Suc maxRetries - attempt)]))"
proof (induction "Suc maxRetries - attempt" arbitrary: attempt n)
  case 0
  then have na: "\<not> attempt \<le> maxRetries" by simp
  with "0.prems" have "b = True" "n' = n" by (simp_all add: destroy_loop.simps)
  moreover have "[attempt..<Suc maxRetries] = []" using na by simp
  moreover have "Suc maxRetries - attempt = 0" using na by simp
  ultimately show ?case using adds_refl[of n] by force
next
  case (Suc d)
  then have le: "attempt \<le> maxRetries" by simp
  let ?req = "[(''type'', JString ''get_cube_list'')]"
  obtain r1 n1 where sj: "sendJSONMessage enc e k ?req dl n = (r1, n1)"
    by (cases "sendJSONMessage enc e k ?req dl n")
  let ?w = "EvWrite k (list_request_bytes enc dl) (r1 = None)"
  from send_adds[OF sj] have a1: "adds n [?w] n1" by (simp add: list_request_bytes_def)
  from sendJSONMessage_result[OF sj]
  have "Write e k (list_request_bytes enc dl) n = (r1, n1)" by (simp add: list_request_bytes_def)
  from Write_result[OF this] w Suc.prems(2) have r1: "r1 = None" by simp
  from a1 have c1: "closed n1 = closed n" "reads n1 = reads n" by (simp_all add: adds_def)
  obtain raw err n2 where rr: "readResponse e k dl n1 = ((raw, err), n2)"
    by (cases "readResponse e k dl n1") auto
  let ?r = "EvRead k (inbound e (reads n))"
  from read_adds[OF rr] c1 Suc.prems(2) have "adds n1 [?r] n2" by simp
  from adds_trans[OF a1 this] have a2: "adds n ([?w] @ [?r]) n2" .
  from readResponse_result[OF rr] c1 Suc.prems(2)
  have err: "err = None" and raw: "raw = fst (readResponse_bytes dl (inbound e (reads n)))"
    by (simp, metis fst_conv)
  from r Suc.prems(1) raw obtain cubeData where cd: "U raw = Some cubeData"
    and ne: "toStringArray (index cubeData ''cubes'') \<noteq> []" by blast
  let ?cubes = "toStringArray (index cubeData ''cubes'')"
  from cd raw have li: "listed U dl e (reads n) = ?cubes" by (simp add: listed_def)
  let ?n3 = "despawn_each enc e dl k ?cubes n2"
  let ?p = "EvPrint (NukeNuked (length ?cubes) attempt)"
  let ?n4 = "print (NukeNuked (length ?cubes) attempt) ?n3"
  from Suc.prems(3) le sj r1 rr err cd ne
  have rec: "destroy_loop enc U e dl k (Suc attempt) ?n4 = (b, n')"
    by (simp add: destroy_loop.simps Let_def)
  from despawn_each_adds[of n2 enc e dl k ?cubes] obtain dev where
    e: "adds n2 dev ?n3" "list_all pass_event dev" "count_reads dev = 0"
      "sent dev = map (despawn_bytes enc dl) ?cubes" by blast
  let ?pass = "(([?w] @ [?r]) @ dev) @ [?p]"
  from adds_trans[OF adds_trans[OF a2 e(1)] print_adds]
  have a4: "adds n ?pass ?n4" .
  then have c4: "closed ?n4 = closed n" and r4: "reads ?n4 = Suc (reads n)"
    using e(3) by (simp_all add: adds_def count_reads_append)
  from c4 Suc.prems(2) have k4: "k \<notin> set (closed ?n4)" by simp
  from r4 Suc.prems(1) have lo4: "lo \<le> reads ?n4" by simp
  from Suc.hyps(2) have d: "d = Suc maxRetries - Suc attempt" by simp
  from Suc.hyps(1)[OF d lo4 k4 rec] obtain evs' where b: "b"
    and e': "adds ?n4 evs' n'" "passes evs' = [Suc attempt..<Suc maxRetries]"
      "EvPrint NukeAllCleared \<notin> set evs'"
      "sent evs' = concat (map (pass_writes enc U dl e)
                             [reads ?n4..<reads ?n4 + (Suc maxRetries - Suc attempt)])" by blast
  let ?all = "?pass @ evs'"
  have t: "adds n ?all n'" by (rule adds_trans[OF a4 e'(1)])
  have ps: "passes ?all = [attempt..<Suc maxRetries]"
    using e(2) e'(2) le by (simp add: passes_append passes_pass_events upt_conv_Cons)
  have nc: "EvPrint NukeAllCleared \<notin> set ?all"
    using cleared_not_pass_event[OF e(2)] e'(3) by simp
  have ix: "[reads n..<reads n + (Suc maxRetries - attempt)]
      = reads n # [Suc (reads n)..<Suc (reads n) + d]"
    using Suc.hyps(2) [symmetric] by (simp add: upt_conv_Cons)
  have "sent ?all = pass_writes enc U dl e (reads n) @ sent evs'"
    using e(4) li by (simp add: sent_append pass_writes_def)
  also have "\<dots> = concat (map (pass_writes enc U dl e)
                       (reads n # [Suc (reads n)..<Suc (reads n) + d]))"
    using e'(4) r4 d by simp
  finally have st: "sent ?all = concat (map (pass_writes enc U dl e)
                       [reads n..<reads n + (Suc maxRetries - attempt)])"
    by (simp only: ix)
  from b t ps nc st show ?case by blast
qed

lemma DestroyAllCubes_bound:
  "\<exists>evs m. trace (DestroyAllCubes enc U e c n) = trace n @ evs \<and> m \<le> maxRetries \<and>
      passes evs = [1..<Suc m] \<and> count_reads evs \<le> Suc maxRetries \<and>
      (EvPrint NukeAllCleared \<in> set evs \<longrightarrow>
         (\<exists>pre. evs = pre @ [EvPrint NukeAllCleared, EvPrint NukeFinished, EvClose (dials n)]))"
proof -
  let ?dl = "construct.Delimiter c"
  obtain r0 n1 where dl: "Dial e n = (r0, n1)" by (cases "Dial e n")
  from Dial_result[OF dl] have t1: "trace n1 = trace n @ [EvDial r0]" by simp
  have z: "(0::nat) \<le> maxRetries" "[1..<Suc 0] = []" by simp_all
  show ?thesis
  proof (cases r0)
    case None
    let ?evs = "[EvDial r0, EvPrint NukeFailedConnect]"
    from None dl t1 have "trace (DestroyAllCubes enc U e c n) = trace n @ ?evs"
      by (simp add: DestroyAllCubes_def print_def)
    moreover have "passes ?evs = [1..<Suc 0]" by simp
    moreover have "count_reads ?evs \<le> Suc maxRetries" by simp
    moreover have "EvPrint NukeAllCleared \<notin> set ?evs" by simp
    ultimately show ?thesis using z(1) by blast
  next
    case k: (Some k)
    with Dial_result[OF dl] have kd: "k = dials n" by (auto split: if_splits)
    let ?auth = "construct.AuthPass c @ ?dl"
    obtain r1 n2 where w1: "Write e k ?auth n1 = (r1, n2)" by (cases "Write e k ?auth n1")
    from Write_result[OF w1] t1
    have t2: "trace n2 = trace n @ [EvDial r0, EvWrite k ?auth (r1 = None)]" by simp
    show ?thesis
    proof (cases r1)
      case (Some err)
      let ?evs = "[EvDial r0, EvWrite k ?auth (r1 = None), EvPrint NukeFailedAuth, EvClose k]"
      from dl k w1 Some t2 have "trace (DestroyAllCubes enc U e c n) = trace n @ ?evs"
        by (simp add: DestroyAllCubes_def print_def Close_def)
      moreover have "passes ?evs = [1..<Suc 0]" by simp
      moreover have "count_reads ?evs \<le> Suc maxRetries" by simp
      moreover have "EvPrint NukeAllCleared \<notin> set ?evs" by simp
      ultimately show ?thesis using z(1) by blast
    next
      case r1: None
      obtain rsp n3 where rr: "readResponse e k ?dl n2 = (rsp, n3)"
        by (cases "readResponse e k ?dl n2")
      let ?h = "[EvDial r0, EvWrite k ?auth True,
                 EvRead k (if k \<in> set (closed n2) then [] else inbound e (reads n2))]"
      from readResponse_result[OF rr] t2 r1 have t3: "trace n3 = trace n @ ?h" by simp
      have ch: "count_reads ?h = 1" "passes ?h = []" by simp_all
      obtain b n4 where lp: "destroy_loop enc U e ?dl k 1 n3 = (b, n4)"
        by (cases "destroy_loop enc U e ?dl k 1 n3")
      from destroy_loop_post[OF lp] obtain evs m where p: "trace n4 = trace n3 @ evs"
        "m \<le> Suc maxRetries" "passes evs = [1..<m]" "count_reads evs \<le> Suc maxRetries - 1"
        "EvPrint NukeAllCleared \<in> set evs \<longrightarrow> b \<and> last evs = EvPrint NukeAllCleared"
        unfolding loop_post_def adds_def by blast
      have m: "m - 1 \<le> maxRetries" using p(2) by simp
      have pm: "passes evs = [1..<Suc (m - 1)]" using p(3) by (cases m) simp_all
      show ?thesis
      proof (cases b)
        case False
        let ?all = "?h @ evs @ [EvClose k]"
        from dl k w1 r1 rr lp p(1) t3 False
        have t: "trace (DestroyAllCubes enc U e c n) = trace n @ ?all"
          by (simp add: DestroyAllCubes_def Close_def)
        have ps: "passes ?all = [1..<Suc (m - 1)]"
          using pm ch(2) by (simp only: passes_append) simp
        have cr: "count_reads ?all \<le> Suc maxRetries"
          using p(4) ch(1) by (simp only: count_reads_append) simp
        from p(5) False have "EvPrint NukeAllCleared \<notin> set ?all" by auto
        with t m ps cr show ?thesis by blast
      next
        case True
        let ?all = "?h @ evs @ [EvPrint NukeFinished, EvClose k]"
        from dl k w1 r1 rr lp p(1) t3 True
        have t: "trace (DestroyAllCubes enc U e c n) = trace n @ ?all"
          by (simp add: DestroyAllCubes_def print_def Close_def)
        have ps: "passes ?all = [1..<Suc (m - 1)]"
          using pm ch(2) by (simp only: passes_append) simp
        have cr: "count_reads ?all \<le> Suc maxRetries"
          using p(4) ch(1) by (simp only: count_reads_append) simp
        have cl: "EvPrint NukeAllCleared \<in> set ?all \<longrightarrow>
           (\<exists>pre. ?all = pre @ [EvPrint NukeAllCleared, EvPrint NukeFinished, EvClose (dials n)])"
        proof
          assume "EvPrint NukeAllCleared \<in> set ?all"
          then have i: "EvPrint NukeAllCleared \<in> set evs" by simp
          with p(5) have l: "last evs = EvPrint NukeAllCleared" by simp
          from i have ne: "evs \<noteq> []" by auto
          define pre where "pre = butlast evs"
          from append_butlast_last_id [OF ne] l have pre: "evs = pre @ [EvPrint NukeAllCleared]"
            by (simp add: pre_def)
          have "?h @ (pre @ [EvPrint NukeAllCleared]) @ [EvPrint NukeFinished, EvClose k] =
              (?h @ pre) @ [EvPrint NukeAllCleared, EvPrint NukeFinished, EvClose (dials n)]"
            using kd by simp
          then have "?all = (?h @ pre) @
              [EvPrint NukeAllCleared, EvPrint NukeFinished, EvClose (dials n)]"
            by (simp only: pre [symmetric])
          then show "\<exists>pre. ?all = pre @
              [EvPrint NukeAllCleared, EvPrint NukeFinished, EvClose (dials n)]" ..
        qed
        from t m ps cr cl show ?thesis by blast
      qed
    qed
  qed
qed

lemma DestroyAllCubes_exhausts:
  assumes d: "dial_ok e (dials n)" and f: "dials n \<notin> set (closed n)"
    and a: "write_ok e (writes n) (construct.AuthPass c @ construct.Delimiter c)"
    and w: "\<forall>i. write_ok e i (list_request_bytes enc (construct.Delimiter c))"
    and r: "\<forall>j. reads n < j \<longrightarrow>
              (\<exists>cd. U (fst (readResponse_bytes (construct.Delimiter c) (inbound e j))) = Some cd \<and>
                    toStringArray (index cd ''cubes'') \<noteq> [])"
  shows "\<exists>evs. trace (DestroyAllCubes enc U e c n) = trace n @ evs \<and>
           passes evs = [1..<Suc maxRetries] \<and> EvPrint NukeAllCleared \<notin> set evs \<and>
           sent evs = (construct.AuthPass c @ construct.Delimiter c) #
             concat (map (pass_writes enc U (construct.Delimiter c) e)
                       [Suc (reads n)..<Suc (reads n) + maxRetries]) \<and>
           (\<exists>pre. evs = pre @ [EvPrint NukeFinished, EvClose (dials n)])"
proof -
  let ?dl = "construct.Delimiter c"
  let ?k = "dials n"
  let ?auth = "construct.AuthPass c @ ?dl"
  obtain r0 n1 where dl: "Dial e n = (r0, n1)" by (cases "Dial e n")
  from Dial_result[OF dl] d have r0: "r0 = Some ?k" and t1: "trace n1 = trace n @ [EvDial r0]"
    and c1: "closed n1 = closed n" "writes n1 = writes n" "reads n1 = reads n" by simp_all
  obtain r1 n2 where w1: "Write e ?k ?auth n1 = (r1, n2)" by (cases "Write e ?k ?auth n1")
  from Write_result[OF w1] f a c1 have r1: "r1 = None" by simp
  from Write_result[OF w1] t1 r1 c1
  have t2: "trace n2 = trace n @ [EvDial r0, EvWrite ?k ?auth True]" and c2: "closed n2 = closed n"
    "reads n2 = reads n"
    by simp_all
  obtain rsp n3 where rr: "readResponse e ?k ?dl n2 = (rsp, n3)"
    by (cases "readResponse e ?k ?dl n2")
  let ?h = "[EvDial r0, EvWrite ?k ?auth True, EvRead ?k (inbound e (reads n))]"
  from readResponse_result[OF rr] t2 c2 f
  have t3: "trace n3 = trace n @ ?h" and c3: "closed n3 = closed n"
    and r3: "reads n3 = Suc (reads n)" by simp_all
  obtain b n4 where lp: "destroy_loop enc U e ?dl ?k 1 n3 = (b, n4)"
    by (cases "destroy_loop enc U e ?dl ?k 1 n3")
  from f c3 have k3: "?k \<notin> set (closed n3)" by simp
  from r have r': "\<forall>j. Suc (reads n) \<le> j \<longrightarrow>
              (\<exists>cd. U (fst (readResponse_bytes ?dl (inbound e j))) = Some cd \<and>
                    toStringArray (index cd ''cubes'') \<noteq> [])" by (simp add: Suc_le_eq)
  from r3 have lo: "Suc (reads n) \<le> reads n3" by simp
  from destroy_loop_exhausts[OF w r' lo k3 lp] obtain evs where b: "b"
    and e: "adds n3 evs n4" "passes evs = [1..<Suc maxRetries]"
      "EvPrint NukeAllCleared \<notin> set evs"
      "sent evs = concat (map (pass_writes enc U ?dl e)
                            [reads n3..<reads n3 + (Suc maxRetries - 1)])" by blast
  from e(1) have t4: "trace n4 = trace n3 @ evs" by (simp add: adds_def)
  let ?all = "(?h @ evs) @ [EvPrint NukeFinished, EvClose ?k]"
  from dl r0 w1 r1 rr lp b t4 t3
  have "trace (DestroyAllCubes enc U e c n) = trace n @ ?all"
    by (simp add: DestroyAllCubes_def print_def Close_def)
  moreover have "passes ?all = [1..<Suc maxRetries]" using e(2) by (simp add: passes_append)
  moreover have "EvPrint NukeAllCleared \<notin> set ?all" using e(3) by simp
  moreover have "sent ?all = ?auth # concat (map (pass_writes enc U ?dl e)
                       [Suc (reads n)..<Suc (reads n) + maxRetries])"
    using e(4) r3 by (simp add: sent_append)
  ultimately show ?thesis by blast
qed

text \<open>
  Claim C7. Whatever the network does, \<^verbatim>\<open>DestroyAllCubes\<close> only adds events to the trace;
  the passes it reports (a list request followed by its despawn commands) are the passes 1
  to \<open>m\<close> for some \<open>m\<close> of at most 5, and it reads at most 6 times (the reply to the
  password, then at most one list response per attempt); if it prints that all cubes are
  cleared, nothing follows but the final message and the closing of its connection. In the
  loop, at any attempt, a list request that is sent and answered by a response that parses
  to an empty list ends the loop at once, by its \<^verbatim>\<open>break\<close>. And with a working connection
  (the dial, the password and every list request succeed) to a server whose list responses
  (every read after the reply to the password, which is discarded and may be anything)
  parse to a list that is not empty, exactly the passes 1 to 5 are made: what is written
  is the password and then, for each of the five list responses in turn, one list request
  followed by one despawn command for each name that response lists, in the order of the
  list, and nothing else; the cleared message is never printed, and the function ends with
  its final message and closes the connection.
\<close>

theorem DestroyAllCubes_retries:
  "(\<exists>evs m. trace (DestroyAllCubes enc U e c n) = trace n @ evs \<and> m \<le> 5 \<and>
      passes evs = [1..<Suc m] \<and> count_reads evs \<le> 6 \<and>
      (EvPrint NukeAllCleared \<in> set evs \<longrightarrow>
         (\<exists>pre. evs = pre @ [EvPrint NukeAllCleared, EvPrint NukeFinished, EvClose (dials n)]))) \<and>
   (attempt \<le> 5 \<and>
    sendJSONMessage enc e' k [(''type'', JString ''get_cube_list'')] dl n' = (None, n1) \<and>
    readResponse e' k dl n1 = ((raw, err), n2) \<and> U raw = Some cubeData \<and>
    toStringArray (index cubeData ''cubes'') = [] \<longrightarrow>
      destroy_loop enc U e' dl k attempt n' = (True, print NukeAllCleared n2)) \<and>
   (dial_ok e (dials n) \<and> dials n \<notin> set (closed n) \<and>
    write_ok e (writes n) (construct.AuthPass c @ construct.Delimiter c) \<and>
    (\<forall>i. write_ok e i (list_request_bytes enc (construct.Delimiter c))) \<and>
    (\<forall>j. reads n < j \<longrightarrow>
       (\<exists>cd. U (fst (readResponse_bytes (construct.Delimiter c) (inbound e j))) = Some cd \<and>
             toStringArray (index cd ''cubes'') \<noteq> [])) \<longrightarrow>
      (\<exists>evs. trace (DestroyAllCubes enc U e c n) = trace n @ evs \<and>
         passes evs = [1, 2, 3, 4, 5] \<and> EvPrint NukeAllCleared \<notin> set evs \<and>
         sent evs = (construct.AuthPass c @ construct.Delimiter c) #
           concat (map (\<lambda>i. pass_writes enc U (construct.Delimiter c) e (reads n + i))
                     [1, 2, 3, 4, 5]) \<and>
         (\<exists>pre. evs = pre @ [EvPrint NukeFinished, EvClose (dials n)])))"
proof (intro conjI impI)
  have six: "Suc maxRetries = 6" by (simp add: maxRetries_def)
  show "\<exists>evs m. trace (DestroyAllCubes enc U e c n) = trace n @ evs \<and> m \<le> 5 \<and>
      passes evs = [1..<Suc m] \<and> count_reads evs \<le> 6 \<and>
      (EvPrint NukeAllCleared \<in> set evs \<longrightarrow>
         (\<exists>pre. evs = pre @ [EvPrint NukeAllCleared, EvPrint NukeFinished, EvClose (dials n)]))"
    using DestroyAllCubes_bound[of enc U e c n] by (simp only: six) (simp only: maxRetries_def)
next
  assume h: "attempt \<le> 5 \<and>
    sendJSONMessage enc e' k [(''type'', JString ''get_cube_list'')] dl n' = (None, n1) \<and>
    readResponse e' k dl n1 = ((raw, err), n2) \<and> U raw = Some cubeData \<and>
    toStringArray (index cubeData ''cubes'') = []"
  then have rr: "readResponse e' k dl n1 = ((raw, err), n2)" by simp
  from readResponse_result[OF rr] have "err = None" by simp
  with h show "destroy_loop enc U e' dl k attempt n' = (True, print NukeAllCleared n2)"
    by (simp add: destroy_loop.simps maxRetries_def)
next
  assume h: "dial_ok e (dials n) \<and> dials n \<notin> set (closed n) \<and>
    write_ok e (writes n) (construct.AuthPass c @ construct.Delimiter c) \<and>
    (\<forall>i. write_ok e i (list_request_bytes enc (construct.Delimiter c))) \<and>
    (\<forall>j. reads n < j \<longrightarrow>
       (\<exists>cd. U (fst (readResponse_bytes (construct.Delimiter c) (inbound e j))) = Some cd \<and>
             toStringArray (index cd ''cubes'') \<noteq> []))"
  have five: "[1..<Suc maxRetries] = [1, 2, 3, 4, 5]"
    by (simp add: maxRetries_def upt_rec)
  have ix: "[Suc (reads n)..<Suc (reads n) + maxRetries]
      = map (\<lambda>i. reads n + i) [1, 2, 3, 4, 5]"
    by (simp add: maxRetries_def upt_rec)
  have mp: "map (pass_writes enc U (construct.Delimiter c) e)
              [Suc (reads n)..<Suc (reads n) + maxRetries]
      = map (\<lambda>i. pass_writes enc U (construct.Delimiter c) e (reads n + i)) [1, 2, 3, 4, 5]"
    by (simp only: ix map_map comp_def)
  from h have "\<exists>evs. trace (DestroyAllCubes enc U e c n) = trace n @ evs \<and>
           passes evs = [1..<Suc maxRetries] \<and> EvPrint NukeAllCleared \<notin> set evs \<and>
           sent evs = (construct.AuthPass c @ construct.Delimiter c) #
             concat (map (pass_writes enc U (construct.Delimiter c) e)
                       [Suc (reads n)..<Suc (reads n) + maxRetries]) \<and>
           (\<exists>pre. evs = pre @ [EvPrint NukeFinished, EvClose (dials n)])"
    by (intro DestroyAllCubes_exhausts) simp_all
  then show "\<exists>evs. trace (DestroyAllCubes enc U e c n) = trace n @ evs \<and>
         passes evs = [1, 2, 3, 4, 5] \<and> EvPrint NukeAllCleared \<notin> set evs \<and>
         sent evs = (construct.AuthPass c @ construct.Delimiter c) #
           concat (map (\<lambda>i. pass_writes enc U (construct.Delimiter c) e (reads n + i))
                     [1, 2, 3, 4, 5]) \<and>
         (\<exists>pre. evs = pre @ [EvPrint NukeFinished, EvClose (dials n)])"
    by (simp only: five mp)
qed

theorem DestroyAllCubes_retries_witness:
  "dial_ok handshake_server (dials net0) \<and> dials net0 \<notin> set (closed net0) \<and>
   write_ok handshake_server (writes net0)
     (construct.AuthPass example_construct @ construct.Delimiter example_construct) \<and>
   example_Unmarshal (fst (readResponse_bytes (construct.Delimiter example_construct)
                             (inbound handshake_server (reads net0)))) = None \<and>
   fst (sendJSONMessage nuke_enc empty_server 0 [(''type'', JString ''get_cube_list'')]
          ''<???DONE???---'' net0) = None \<and>
   example_Unmarshal ''{\"cubes\":[]}'' = Some [(''cubes'', JArray [])] \<and>
   toStringArray (index [(''cubes'', JArray [])] ''cubes'') = [] \<and>
   fst (destroy_loop nuke_enc example_Unmarshal empty_server ''<???DONE???---'' 0 1 net0) \<and>
   last (trace (snd (destroy_loop nuke_enc example_Unmarshal empty_server ''<???DONE???---''
                       0 1 net0))) = EvPrint NukeAllCleared \<and>
   (\<exists>evs. trace (DestroyAllCubes nuke_enc example_Unmarshal handshake_server example_construct
                   net0) = trace net0 @ evs \<and>
          passes evs = [1, 2, 3, 4, 5] \<and> EvPrint NukeAllCleared \<notin> set evs \<and>
          sent evs =
            [''my_secure_password<???DONE???---'',
             ''{\"type\":\"get_cube_list\"}<???DONE???---'',
             ''{\"cube_name\":\"a\",\"type\":\"despawn_cube\"}<???DONE???---'',
             ''{\"type\":\"get_cube_list\"}<???DONE???---'',
             ''{\"cube_name\":\"a\",\"type\":\"despawn_cube\"}<???DONE???---'',
             ''{\"type\":\"get_cube_list\"}<???DONE???---'',
             ''{\"cube_name\":\"a\",\"type\":\"despawn_cube\"}<???DONE???---'',
             ''{\"type\":\"get_cube_list\"}<???DONE???---'',
             ''{\"cube_name\":\"a\",\"type\":\"despawn_cube\"}<???DONE???---'',
             ''{\"type\":\"get_cube_list\"}<???DONE???---'',
             ''{\"cube_name\":\"a\",\"type\":\"despawn_cube\"}<???DONE???---''] \<and>
          (\<exists>pre. evs = pre @ [EvPrint NukeFinished, EvClose (dials net0)]))"
proof -
  let ?dl = "''<???DONE???---''"
  let ?req = "[(''type'', JString ''get_cube_list'')]"
  let ?L = "''{\"type\":\"get_cube_list\"}<???DONE???---''"
  let ?D = "''{\"cube_name\":\"a\",\"type\":\"despawn_cube\"}<???DONE???---''"
  define n1 where "n1 = snd (sendJSONMessage nuke_enc empty_server 0 ?req ?dl net0)"
  define n2 where "n2 = snd (readResponse empty_server 0 ?dl n1)"
  have dlm: "construct.Delimiter example_construct = ?dl" by (simp add: example_construct_def)
  have a: "dial_ok handshake_server (dials net0)" by (simp add: handshake_server_def)
  have b: "dials net0 \<notin> set (closed net0)" by (simp add: net0_def)
  have c: "write_ok handshake_server (writes net0)
     (construct.AuthPass example_construct @ construct.Delimiter example_construct)"
    by (simp add: handshake_server_def)
  have d: "\<forall>i. write_ok handshake_server i
       (list_request_bytes nuke_enc (construct.Delimiter example_construct))"
    by (simp add: handshake_server_def)
  have rb: "readResponse_bytes ?dl ''{\"cubes\":[\"a\"]}<???DONE???---'' = (''{\"cubes\":[\"a\"]}'', None)"
    by (simp add: readResponse_bytes_def readLoop.simps ReplaceAll_empty.simps TrimSpace_eval)
  have rh: "readResponse_bytes ?dl ''OK<???DONE???---'' = (''OK'', None)"
    by (simp add: readResponse_bytes_def readLoop.simps ReplaceAll_empty.simps TrimSpace_eval)
  have hs: "example_Unmarshal (fst (readResponse_bytes (construct.Delimiter example_construct)
                             (inbound handshake_server (reads net0)))) = None"
    by (simp add: dlm handshake_server_def net0_def rh example_Unmarshal_def)
  have e: "\<forall>j. reads net0 < j \<longrightarrow>
       (\<exists>cd. example_Unmarshal
               (fst (readResponse_bytes (construct.Delimiter example_construct)
                       (inbound handshake_server j))) = Some cd \<and>
             toStringArray (index cd ''cubes'') \<noteq> [])"
    by (simp add: dlm handshake_server_def net0_def rb example_Unmarshal_def index_def)
  have pw: "pass_writes nuke_enc example_Unmarshal ?dl handshake_server j = [?L, ?D]"
    if "0 < j" for j
    using that
    by (simp add: pass_writes_def listed_def handshake_server_def rb example_Unmarshal_def
          index_def list_request_bytes_def despawn_bytes_def nuke_enc_def)
  have st: "(construct.AuthPass example_construct @ construct.Delimiter example_construct) #
      concat (map (\<lambda>i. pass_writes nuke_enc example_Unmarshal
                         (construct.Delimiter example_construct) handshake_server
                         (reads net0 + i)) [1, 2, 3, 4, 5])
      = [''my_secure_password<???DONE???---'', ?L, ?D, ?L, ?D, ?L, ?D, ?L, ?D, ?L, ?D]"
    by (simp add: dlm pw) (simp add: example_construct_def)
  have s: "sendJSONMessage nuke_enc empty_server 0 ?req ?dl net0 = (None, n1)"
    by (simp add: n1_def sendJSONMessage_def Marshal_def Write_def empty_server_def
          example_env_def net0_def Let_def)
  have r: "readResponse empty_server 0 ?dl n1 = ((''{\"cubes\":[]}'', None), n2)"
    by (simp add: n2_def n1_def readResponse_def sendJSONMessage_def Marshal_def Write_def
          empty_server_def example_env_def net0_def Let_def readResponse_bytes_def readLoop.simps
          ReplaceAll_empty.simps TrimSpace_eval)
  have u: "example_Unmarshal ''{\"cubes\":[]}'' = Some [(''cubes'', JArray [])]"
    by (simp add: example_Unmarshal_def)
  have t: "toStringArray (index [(''cubes'', JArray [])] ''cubes'') = []"
    by (simp add: index_def)
  have l: "(1::nat) \<le> 5" by simp
  note inst = DestroyAllCubes_retries [where enc = nuke_enc and U = example_Unmarshal
      and e = handshake_server and c = example_construct and n = net0 and attempt = 1
      and e' = empty_server and k = 0 and dl = ?dl and n' = net0 and ?n1.0 = n1
      and raw = "''{\"cubes\":[]}''" and err = None and ?n2.0 = n2
      and cubeData = "[(''cubes'', JArray [])]"]
  from inst l s r u t
  have lp: "destroy_loop nuke_enc example_Unmarshal empty_server ?dl 0 1 net0
      = (True, print NukeAllCleared n2)" by blast
  from inst a b c d e
  have "\<exists>evs. trace (DestroyAllCubes nuke_enc example_Unmarshal handshake_server
                            example_construct net0) = trace net0 @ evs \<and>
          passes evs = [1, 2, 3, 4, 5] \<and> EvPrint NukeAllCleared \<notin> set evs \<and>
          sent evs = (construct.AuthPass example_construct
                        @ construct.Delimiter example_construct) #
            concat (map (\<lambda>i. pass_writes nuke_enc example_Unmarshal
                               (construct.Delimiter example_construct) handshake_server
                               (reads net0 + i)) [1, 2, 3, 4, 5]) \<and>
          (\<exists>pre. evs = pre @ [EvPrint NukeFinished, EvClose (dials net0)])" by blast
  then have ex: "\<exists>evs. trace (DestroyAllCubes nuke_enc example_Unmarshal handshake_server
                            example_construct net0) = trace net0 @ evs \<and>
          passes evs = [1, 2, 3, 4, 5] \<and> EvPrint NukeAllCleared \<notin> set evs \<and>
          sent evs = [''my_secure_password<???DONE???---'', ?L, ?D, ?L, ?D, ?L, ?D, ?L, ?D, ?L, ?D] \<and>
          (\<exists>pre. evs = pre @ [EvPrint NukeFinished, EvClose (dials net0)])"
    by (simp only: st)
  from s have s': "fst (sendJSONMessage nuke_enc empty_server 0 ?req ?dl net0) = None" by simp
  from lp have l1: "fst (destroy_loop nuke_enc example_Unmarshal empty_server ?dl 0 1 net0)"
    and l2: "last (trace (snd (destroy_loop nuke_enc example_Unmarshal empty_server ?dl
                       0 1 net0))) = EvPrint NukeAllCleared"
    by (simp_all add: print_def)
  from a b c hs s' u t l1 l2 ex show ?thesis by blast
qed

end
